theory Spec2Isabelle
  imports Main "HOL-Library.Word"
begin

unbundle bit_operations_syntax

section \<open>Common types\<close>

text \<open>
  \<open>page_id_t\<close> and \<open>frame_id_t\<close> are C++ \<open>int\<close>s; no claim depends on their
  wrap-around, so they are modelled as \<open>int\<close>. A call that does not return normally
  returns a \<open>fault\<close>: an access outside an array (\<open>OutOfRange\<close>), the use of a list
  iterator that does not belong to the list (\<open>InvalidIterator\<close>), a failed
  \<open>BUSTUB_ASSERT\<close> (\<open>AssertionFailure\<close>), a callee that loops forever
  (\<open>NoReturn\<close>), or the exhaustion of the recursion budget of the model
  (\<open>OutOfFuel\<close>). An Isabelle name cannot end in an underscore: a member \<open>x_\<close> of
  the source is the field \<open>x_m\<close> of the model.
\<close>

type_synonym page_id_t = int
type_synonym frame_id_t = int

text \<open>
  Modelled from the spec: \<open>INVALID_PAGE_ID\<close> is a constant of common/config.h, which is
  not among the sources. It is "a sentinel value" that "denotes no page", and the ids the
  allocator hands out are not negative.
\<close>

definition INVALID_PAGE_ID :: page_id_t where
  "INVALID_PAGE_ID = - 1"

datatype fault = OutOfRange | InvalidIterator | AssertionFailure | NoReturn | OutOfFuel

section \<open>Extendible hash table (extendible\_hash\_table.cpp)\<close>

subsection \<open>Bucket\<close>

record ('k, 'v) Bucket =
  size_m :: nat
  depth_m :: nat
  list_m :: "('k \<times> 'v) list"

text \<open>\<open>Bucket::Bucket(array_size, depth)\<close>; the item list starts empty.\<close>

definition new_Bucket :: "nat \<Rightarrow> nat \<Rightarrow> ('k, 'v) Bucket" where
  "new_Bucket array_size depth = \<lparr>size_m = array_size, depth_m = depth, list_m = []\<rparr>"

text \<open>
  Modelled from the spec: the inline members \<open>IsFull\<close>, \<open>GetDepth\<close>,
  \<open>IncrementDepth\<close> and \<open>GetItems\<close> of \<open>Bucket\<close> are declared in
  extendible\_hash\_table.h, which is not among the sources. A bucket "holds up to
  \<open>bucket_capacity\<close> pairs" and "carries a \<open>local_depth\<close>": it is full when its list
  has \<open>size_m\<close> entries.
\<close>

definition IsFull :: "('k, 'v) Bucket \<Rightarrow> bool" where
  "IsFull b = (length (list_m b) = size_m b)"

definition GetDepth :: "('k, 'v) Bucket \<Rightarrow> nat" where
  "GetDepth b = depth_m b"

definition IncrementDepth :: "('k, 'v) Bucket \<Rightarrow> ('k, 'v) Bucket" where
  "IncrementDepth b = b\<lparr>depth_m := depth_m b + 1\<rparr>"

definition GetItems :: "('k, 'v) Bucket \<Rightarrow> ('k \<times> 'v) list" where
  "GetItems b = list_m b"

text \<open>\<open>Bucket::Find\<close>: the value of the first pair with the key.\<close>

fun find_loop :: "('k \<times> 'v) list \<Rightarrow> 'k \<Rightarrow> 'v option" where
  "find_loop [] key = None"
| "find_loop (p # ps) key = (if fst p = key then Some (snd p) else find_loop ps key)"

definition Bucket_Find :: "('k, 'v) Bucket \<Rightarrow> 'k \<Rightarrow> 'v option" where
  "Bucket_Find b key = find_loop (list_m b) key"

text \<open>\<open>Bucket::Remove\<close>: erases the first pair with the key, if there is one.\<close>

fun remove_loop :: "('k \<times> 'v) list \<Rightarrow> 'k \<Rightarrow> ('k \<times> 'v) list option" where
  "remove_loop [] key = None"
| "remove_loop (p # ps) key =
     (if fst p = key then Some ps
      else (case remove_loop ps key of None \<Rightarrow> None | Some ps' \<Rightarrow> Some (p # ps')))"

definition Bucket_Remove :: "('k, 'v) Bucket \<Rightarrow> 'k \<Rightarrow> bool \<times> ('k, 'v) Bucket" where
  "Bucket_Remove b key =
     (case remove_loop (list_m b) key of
        None \<Rightarrow> (False, b)
      | Some ps \<Rightarrow> (True, b\<lparr>list_m := ps\<rparr>))"

text \<open>
  \<open>Bucket::Insert\<close>: the first pair with the key gets the new value and the call
  returns false; otherwise a full bucket returns false unchanged, and any other bucket
  gets the pair at the back and returns true.
\<close>

fun update_loop :: "('k \<times> 'v) list \<Rightarrow> 'k \<Rightarrow> 'v \<Rightarrow> ('k \<times> 'v) list option" where
  "update_loop [] key val = None"
| "update_loop (p # ps) key val =
     (if fst p = key then Some ((fst p, val) # ps)
      else (case update_loop ps key val of None \<Rightarrow> None | Some ps' \<Rightarrow> Some (p # ps')))"

definition Bucket_Insert :: "('k, 'v) Bucket \<Rightarrow> 'k \<Rightarrow> 'v \<Rightarrow> bool \<times> ('k, 'v) Bucket" where
  "Bucket_Insert b key val =
     (case update_loop (list_m b) key val of
        Some ps \<Rightarrow> (False, b\<lparr>list_m := ps\<rparr>)
      | None \<Rightarrow>
          if IsFull b then (False, b)
          else (True, b\<lparr>list_m := list_m b @ [(key, val)]\<rparr>))"

subsection \<open>The table\<close>

text \<open>
  The directory holds \<open>shared_ptr<Bucket>\<close>s, and several entries may share one
  bucket: the model keeps the buckets in a store \<open>heap_m\<close> and the directory holds
  their addresses (indices of the store). \<open>make_shared\<close> appends to the store, and
  comparing two pointers compares two addresses. The hash function \<open>std::hash<K>\<close> is
  the parameter \<open>h\<close> of every operation; its values are \<open>size_t\<close>, modelled as \<open>nat\<close>.
  Depths are \<open>nat\<close>: the shifts \<open>1 << depth\<close> are modelled without the overflow
  of \<open>int\<close>, which the source reaches at depth 31.
\<close>

record ('k, 'v) ExtendibleHashTable =
  global_depth_m :: nat
  bucket_size_m :: nat
  num_buckets_m :: nat
  dir_m :: "nat list"
  heap_m :: "('k, 'v) Bucket list"

definition new_ExtendibleHashTable :: "nat \<Rightarrow> ('k, 'v) ExtendibleHashTable" where
  "new_ExtendibleHashTable bucket_size =
     \<lparr>global_depth_m = 0, bucket_size_m = bucket_size, num_buckets_m = 1,
      dir_m = [0], heap_m = [new_Bucket bucket_size 0]\<rparr>"

definition IndexOf :: "('k \<Rightarrow> nat) \<Rightarrow> ('k, 'v) ExtendibleHashTable \<Rightarrow> 'k \<Rightarrow> nat" where
  "IndexOf h t key = (let mask = push_bit (global_depth_m t) 1 - 1 in h key AND mask)"

definition GetGlobalDepth :: "('k, 'v) ExtendibleHashTable \<Rightarrow> nat" where
  "GetGlobalDepth t = global_depth_m t"

definition GetNumBuckets :: "('k, 'v) ExtendibleHashTable \<Rightarrow> nat" where
  "GetNumBuckets t = num_buckets_m t"

text \<open>\<open>dir_[i]\<close>: the address held by a directory entry; outside the directory a fault.\<close>

definition dir_at :: "('k, 'v) ExtendibleHashTable \<Rightarrow> nat \<Rightarrow> fault + nat" where
  "dir_at t i =
     (if i < length (dir_m t) \<and> dir_m t ! i < length (heap_m t) then Inr (dir_m t ! i)
      else Inl OutOfRange)"

definition GetLocalDepth :: "('k, 'v) ExtendibleHashTable \<Rightarrow> nat \<Rightarrow> fault + nat" where
  "GetLocalDepth t dir_index =
     (case dir_at t dir_index of Inl e \<Rightarrow> Inl e | Inr a \<Rightarrow> Inr (GetDepth (heap_m t ! a)))"

definition Find :: "('k \<Rightarrow> nat) \<Rightarrow> ('k, 'v) ExtendibleHashTable \<Rightarrow> 'k \<Rightarrow> fault + 'v option" where
  "Find h t key =
     (let index = IndexOf h t key in
      case dir_at t index of
        Inl e \<Rightarrow> Inl e
      | Inr a \<Rightarrow> Inr (Bucket_Find (heap_m t ! a) key))"

definition Remove ::
  "('k \<Rightarrow> nat) \<Rightarrow> ('k, 'v) ExtendibleHashTable \<Rightarrow> 'k \<Rightarrow> fault + (bool \<times> ('k, 'v) ExtendibleHashTable)" where
  "Remove h t key =
     (let index = IndexOf h t key in
      case dir_at t index of
        Inl e \<Rightarrow> Inl e
      | Inr a \<Rightarrow>
          (let (removed, b) = Bucket_Remove (heap_m t ! a) key
           in Inr (removed, t\<lparr>heap_m := (heap_m t)[a := b]\<rparr>)))"

text \<open>
  \<open>for (i = 0; i < n; i++) dir_.push_back(dir_[i])\<close>. The directory grows while the
  loop reads it, so \<open>dir_[i]\<close> is inside it whenever it was not empty at the start.
\<close>

function push_back_loop :: "nat \<Rightarrow> nat \<Rightarrow> 'a list \<Rightarrow> 'a list" where
  "push_back_loop i n d = (if i < n then push_back_loop (i + 1) n (d @ [d ! i]) else d)"
  by pat_completeness auto
termination
  by (relation "measure (\<lambda>(i, n, d). n - i)") auto

declare push_back_loop.simps [simp del]

subsection \<open>Insert, first listing (lines 97-161): the splitting loop\<close>

text \<open>
  The items of the full bucket go to \<open>bucket_1\<close> or \<open>bucket_0\<close> by the bit \<open>mask\<close>
  of their hash (\<open>msk\<close> below: \<open>mask\<close> is a constant of HOL).
\<close>

fun distribute ::
  "('k \<Rightarrow> nat) \<Rightarrow> nat \<Rightarrow> ('k \<times> 'v) list \<Rightarrow> ('k, 'v) Bucket \<Rightarrow> ('k, 'v) Bucket
     \<Rightarrow> ('k, 'v) Bucket \<times> ('k, 'v) Bucket" where
  "distribute h msk [] bucket_0 bucket_1 = (bucket_0, bucket_1)"
| "distribute h msk (item # items) bucket_0 bucket_1 =
     (if h (fst item) AND msk \<noteq> 0
      then distribute h msk items bucket_0 (snd (Bucket_Insert bucket_1 (fst item) (snd item)))
      else distribute h msk items (snd (Bucket_Insert bucket_0 (fst item) (snd item))) bucket_1)"

text \<open>
  \<open>for (i = 0; i < dir_.size(); i++) if (dir_[i] == target_bucket) ...\<close>: every
  entry holding the target's address is replaced, by the bit \<open>mask\<close> of its own index.
\<close>

fun rewrite_dir :: "nat \<Rightarrow> nat \<Rightarrow> nat \<Rightarrow> nat \<Rightarrow> nat \<Rightarrow> nat list \<Rightarrow> nat list" where
  "rewrite_dir target msk a0 a1 i [] = []"
| "rewrite_dir target msk a0 a1 i (a # as) =
     (if a = target then (if i AND msk \<noteq> 0 then a1 else a0) else a)
       # rewrite_dir target msk a0 a1 (i + 1) as"

text \<open>One iteration of the \<open>while\<close> loop (lines 99-137), entered at directory index \<open>index\<close>.\<close>

definition split_step ::
  "('k \<Rightarrow> nat) \<Rightarrow> ('k, 'v) ExtendibleHashTable \<Rightarrow> nat \<Rightarrow> ('k, 'v) ExtendibleHashTable" where
  "split_step h t index =
     (let target_bucket = dir_m t ! index;
          target = heap_m t ! target_bucket;
          t1 = (if GetDepth target = global_depth_m t
                then t\<lparr>global_depth_m := global_depth_m t + 1,
                       dir_m := push_back_loop 0 (length (dir_m t)) (dir_m t)\<rparr>
                else t);
          t2 = t1\<lparr>num_buckets_m := num_buckets_m t1 + 1\<rparr>;
          mask = push_bit (GetDepth target) 1;
          a0 = length (heap_m t2);
          a1 = length (heap_m t2) + 1;
          (bucket_0, bucket_1) =
             distribute h mask (GetItems target)
               (new_Bucket (bucket_size_m t2) (GetDepth target + 1))
               (new_Bucket (bucket_size_m t2) (GetDepth target + 1))
      in t2\<lparr>heap_m := heap_m t2 @ [bucket_0, bucket_1],
             dir_m := rewrite_dir target_bucket mask a0 a1 0 (dir_m t2)\<rparr>)"

text \<open>
  \<open>InsertInternal\<close> of the first listing. The loop has no bound in the source, so the
  result is an option: \<open>None\<close> is a loop that never ends.
\<close>

partial_function (option) InsertInternal ::
  "('k \<Rightarrow> nat) \<Rightarrow> ('k, 'v) ExtendibleHashTable \<Rightarrow> 'k \<Rightarrow> 'v
     \<Rightarrow> (fault + ('k, 'v) ExtendibleHashTable) option" where
  "InsertInternal h t key val =
     (case dir_at t (IndexOf h t key) of
        Inl e \<Rightarrow> Some (Inl e)
      | Inr a \<Rightarrow>
          if IsFull (heap_m t ! a)
          then InsertInternal h (split_step h t (IndexOf h t key)) key val
          else Some (Inr (t\<lparr>heap_m := (heap_m t)[a := snd (Bucket_Insert (heap_m t ! a) key val)]\<rparr>)))"

declare InsertInternal.simps [code]

definition Insert ::
  "('k \<Rightarrow> nat) \<Rightarrow> ('k, 'v) ExtendibleHashTable \<Rightarrow> 'k \<Rightarrow> 'v
     \<Rightarrow> (fault + ('k, 'v) ExtendibleHashTable) option" where
  "Insert h t key val = InsertInternal h t key val"

subsection \<open>Insert, second listing (lines 320-406): split, redistribute, retry\<close>

text \<open>
  The second listing of the file defines \<open>RedistributeBucket\<close> and \<open>InsertInternal\<close>
  by mutual recursion. The model bounds the depth of the recursion by a fuel argument:
  \<open>InsertInternal2 n\<close> may nest \<open>n\<close> calls and returns \<open>OutOfFuel\<close> beyond.
  \<open>RedistributeBucket2\<close> takes the \<open>InsertInternal\<close> it calls as an argument.
\<close>

fun insert_all ::
  "(('k, 'v) ExtendibleHashTable \<Rightarrow> 'k \<Rightarrow> 'v \<Rightarrow> fault + ('k, 'v) ExtendibleHashTable)
     \<Rightarrow> ('k \<times> 'v) list \<Rightarrow> ('k, 'v) ExtendibleHashTable \<Rightarrow> fault + ('k, 'v) ExtendibleHashTable" where
  "insert_all ins [] t = Inr t"
| "insert_all ins (p # ps) t =
     (case ins t (fst p) (snd p) of Inl e \<Rightarrow> Inl e | Inr t' \<Rightarrow> insert_all ins ps t')"

definition RedistributeBucket2 ::
  "(('k, 'v) ExtendibleHashTable \<Rightarrow> 'k \<Rightarrow> 'v \<Rightarrow> fault + ('k, 'v) ExtendibleHashTable)
     \<Rightarrow> ('k, 'v) ExtendibleHashTable \<Rightarrow> nat \<Rightarrow> fault + ('k, 'v) ExtendibleHashTable" where
  "RedistributeBucket2 ins t bucket =
     (let tmp_list = GetItems (heap_m t ! bucket);
          t' = t\<lparr>heap_m := (heap_m t)[bucket := (heap_m t ! bucket)\<lparr>list_m := []\<rparr>]\<rparr>
      in insert_all ins tmp_list t')"

primrec InsertInternal2 ::
  "nat \<Rightarrow> ('k \<Rightarrow> nat) \<Rightarrow> ('k, 'v) ExtendibleHashTable \<Rightarrow> 'k \<Rightarrow> 'v
     \<Rightarrow> fault + ('k, 'v) ExtendibleHashTable" where
  "InsertInternal2 0 h t key val = Inl OutOfFuel"
| "InsertInternal2 (Suc n) h t key val =
     (let index = IndexOf h t key in
      case dir_at t index of
        Inl e \<Rightarrow> Inl e
      | Inr a \<Rightarrow>
          if Bucket_Find (heap_m t ! a) key \<noteq> None
          then Inr (t\<lparr>heap_m := (heap_m t)[a := snd (Bucket_Insert (heap_m t ! a) key val)]\<rparr>)
          else if IsFull (heap_m t ! a)
          then
            (let t1 = (if GetDepth (heap_m t ! a) = global_depth_m t
                       then (let d = push_back_loop 0 (num_buckets_m t) (dir_m t)
                             in t\<lparr>global_depth_m := global_depth_m t + 1, dir_m := d,
                                  num_buckets_m := length d\<rparr>)
                       else t);
                 t2 = t1\<lparr>heap_m := (heap_m t1)[a := IncrementDepth (heap_m t1 ! a)]\<rparr>;
                 full_bucket = a;
                 new_index = IndexOf h t2 key
             in if \<not> new_index < length (dir_m t2) then Inl OutOfRange
                else
                  (let t3 = t2\<lparr>heap_m := heap_m t2 @
                                   [new_Bucket (bucket_size_m t2) (GetDepth (heap_m t2 ! full_bucket))],
                                dir_m := (dir_m t2)[new_index := length (heap_m t2)]\<rparr>
                   in case RedistributeBucket2 (InsertInternal2 n h) t3 full_bucket of
                        Inl e \<Rightarrow> Inl e
                      | Inr t4 \<Rightarrow> InsertInternal2 n h t4 key val))
          else Inr (t\<lparr>heap_m := (heap_m t)[a := snd (Bucket_Insert (heap_m t ! a) key val)]\<rparr>))"

definition Insert2 ::
  "nat \<Rightarrow> ('k \<Rightarrow> nat) \<Rightarrow> ('k, 'v) ExtendibleHashTable \<Rightarrow> 'k \<Rightarrow> 'v
     \<Rightarrow> fault + ('k, 'v) ExtendibleHashTable" where
  "Insert2 n h t key val = InsertInternal2 n h t key val"

section \<open>LRU-K replacer (lru\_k\_replacer.cpp)\<close>

text \<open>
  Modelled from the spec: the node type of the two lists is declared in
  lru\_k\_replacer.h, which is not among the sources. A node "carries \<open>frame_id\<close>,
  \<open>access_count\<close>, \<open>evictable\<close> flag"; the node made on the first access has count 1,
  and it is not evictable, as \<open>Size\<close> ("count of currently evictable nodes") does not
  change on \<open>RecordAccess\<close>.
\<close>

record Node =
  frame_id_m :: frame_id_t
  access_count_m :: nat
  evictable_m :: bool

definition new_Node :: "frame_id_t \<Rightarrow> Node" where
  "new_Node frame_id = \<lparr>frame_id_m = frame_id, access_count_m = 1, evictable_m = False\<rparr>"

text \<open>
  \<open>hash_\<close> maps a frame id to an iterator into one of the two lists. The model keeps
  the list the iterator belongs to; the node it points to is the node of that list with
  the frame id (\<open>node_of\<close>). Using an iterator whose node is not in its list, or erasing
  it from the other list, is undefined in C++ and the fault \<open>InvalidIterator\<close> here.
  \<open>curr_size_\<close> is a \<open>size_t\<close>.
\<close>

datatype list_tag = In_inf_list | In_countable_list

record LRUKReplacer =
  replacer_size_m :: nat
  k_m :: nat
  curr_size_m :: "64 word"
  inf_list_m :: "Node list"
  countable_list_m :: "Node list"
  hash_m :: "frame_id_t \<Rightarrow> list_tag option"

definition new_LRUKReplacer :: "nat \<Rightarrow> nat \<Rightarrow> LRUKReplacer" where
  "new_LRUKReplacer num_frames k =
     \<lparr>replacer_size_m = num_frames, k_m = k, curr_size_m = 0,
      inf_list_m = [], countable_list_m = [], hash_m = (\<lambda>_. None)\<rparr>"

fun node_of :: "Node list \<Rightarrow> frame_id_t \<Rightarrow> Node option" where
  "node_of [] frame_id = None"
| "node_of (n # ns) frame_id = (if frame_id_m n = frame_id then Some n else node_of ns frame_id)"

fun erase :: "Node list \<Rightarrow> frame_id_t \<Rightarrow> Node list" where
  "erase [] frame_id = []"
| "erase (n # ns) frame_id = (if frame_id_m n = frame_id then ns else n # erase ns frame_id)"

fun set_evictable :: "Node list \<Rightarrow> frame_id_t \<Rightarrow> bool \<Rightarrow> Node list" where
  "set_evictable [] frame_id e = []"
| "set_evictable (n # ns) frame_id e =
     (if frame_id_m n = frame_id then n\<lparr>evictable_m := e\<rparr> # ns
      else n # set_evictable ns frame_id e)"

definition list_of :: "LRUKReplacer \<Rightarrow> list_tag \<Rightarrow> Node list" where
  "list_of r w = (case w of In_inf_list \<Rightarrow> inf_list_m r | In_countable_list \<Rightarrow> countable_list_m r)"

text \<open>
  \<open>BUSTUB_ASSERT(frame_id <= (int)replacer_size_, "invalid frame id")\<close>, the first
  statement of \<open>RecordAccess\<close> and of \<open>SetEvictable\<close>. The macro is defined in
  common/macros.h, which is not among the sources: a failed assertion is a "fatal
  precondition failure, not recovered", the fault \<open>AssertionFailure\<close> here. The cast of
  the \<open>size_t\<close> \<open>replacer_size_\<close> to \<open>int\<close> keeps its low 32 bits, read as a signed
  number: it is the identity below \<open>2 ^ 31\<close> and wraps from there on.
\<close>

definition int_cast :: "nat \<Rightarrow> int" where
  "int_cast n = sint (word_of_nat n :: 32 word)"

definition frame_id_assertion :: "LRUKReplacer \<Rightarrow> frame_id_t \<Rightarrow> bool" where
  "frame_id_assertion r frame_id = (frame_id \<le> int_cast (replacer_size_m r))"

definition RecordAccess :: "LRUKReplacer \<Rightarrow> frame_id_t \<Rightarrow> fault + LRUKReplacer" where
  "RecordAccess r frame_id =
     (if \<not> frame_id_assertion r frame_id then Inl AssertionFailure
      else
        case hash_m r frame_id of
          None \<Rightarrow>
            if k_m r = 1
            then Inr (r\<lparr>countable_list_m := countable_list_m r @ [new_Node frame_id],
                        hash_m := (hash_m r)(frame_id \<mapsto> In_countable_list)\<rparr>)
            else Inr (r\<lparr>inf_list_m := inf_list_m r @ [new_Node frame_id],
                        hash_m := (hash_m r)(frame_id \<mapsto> In_inf_list)\<rparr>)
        | Some it \<Rightarrow>
            (case node_of (list_of r it) frame_id of
               None \<Rightarrow> Inl InvalidIterator
             | Some node \<Rightarrow>
                 (let new_access_count = access_count_m node + 1;
                      evictable = evictable_m node;
                      moved = \<lparr>frame_id_m = frame_id, access_count_m = new_access_count,
                               evictable_m = evictable\<rparr>
                  in if new_access_count < k_m r
                     then
                       if it \<noteq> In_inf_list then Inl InvalidIterator
                       else Inr (r\<lparr>inf_list_m := erase (inf_list_m r) frame_id @ [moved],
                                   hash_m := (hash_m r)(frame_id \<mapsto> In_inf_list)\<rparr>)
                     else if new_access_count = k_m r
                     then
                       if it \<noteq> In_inf_list then Inl InvalidIterator
                       else Inr (r\<lparr>inf_list_m := erase (inf_list_m r) frame_id,
                                   countable_list_m := countable_list_m r @ [moved],
                                   hash_m := (hash_m r)(frame_id \<mapsto> In_countable_list)\<rparr>)
                     else
                       if it \<noteq> In_countable_list then Inl InvalidIterator
                       else Inr (r\<lparr>countable_list_m := erase (countable_list_m r) frame_id @ [moved],
                                   hash_m := (hash_m r)(frame_id \<mapsto> In_countable_list)\<rparr>))))"

text \<open>The assignment \<open>it->evictable_ = e\<close> through the iterator \<open>it\<close> of \<open>frame_id\<close>.\<close>

definition assign_evictable :: "LRUKReplacer \<Rightarrow> list_tag \<Rightarrow> frame_id_t \<Rightarrow> bool \<Rightarrow> LRUKReplacer" where
  "assign_evictable r it frame_id e =
     (case it of
        In_inf_list \<Rightarrow> r\<lparr>inf_list_m := set_evictable (inf_list_m r) frame_id e\<rparr>
      | In_countable_list \<Rightarrow> r\<lparr>countable_list_m := set_evictable (countable_list_m r) frame_id e\<rparr>)"

definition SetEvictable :: "LRUKReplacer \<Rightarrow> frame_id_t \<Rightarrow> bool \<Rightarrow> fault + LRUKReplacer" where
  "SetEvictable r frame_id set_evictable_arg =
     (if \<not> frame_id_assertion r frame_id then Inl AssertionFailure
      else
        case hash_m r frame_id of
          None \<Rightarrow> Inr r
        | Some it \<Rightarrow>
            (case node_of (list_of r it) frame_id of
               None \<Rightarrow> Inl InvalidIterator
             | Some node \<Rightarrow>
                 if \<not> evictable_m node
                 then
                   if set_evictable_arg
                   then Inr ((assign_evictable r it frame_id set_evictable_arg)
                               \<lparr>curr_size_m := curr_size_m r + 1\<rparr>)
                   else Inr r
                 else
                   if \<not> set_evictable_arg
                   then Inr ((assign_evictable r it frame_id set_evictable_arg)
                               \<lparr>curr_size_m := curr_size_m r - 1\<rparr>)
                   else Inr r))"

definition RemoveInternal :: "LRUKReplacer \<Rightarrow> frame_id_t \<Rightarrow> fault + LRUKReplacer" where
  "RemoveInternal r frame_id =
     (case hash_m r frame_id of
        None \<Rightarrow> Inr r
      | Some it \<Rightarrow>
          (case node_of (list_of r it) frame_id of
             None \<Rightarrow> Inl InvalidIterator
           | Some node \<Rightarrow>
               if \<not> evictable_m node then Inl AssertionFailure
               else if access_count_m node \<ge> k_m r
               then
                 if it \<noteq> In_countable_list then Inl InvalidIterator
                 else Inr (r\<lparr>countable_list_m := erase (countable_list_m r) frame_id,
                             hash_m := (hash_m r)(frame_id := None),
                             curr_size_m := curr_size_m r - 1\<rparr>)
               else
                 if it \<noteq> In_inf_list then Inl InvalidIterator
                 else Inr (r\<lparr>inf_list_m := erase (inf_list_m r) frame_id,
                             hash_m := (hash_m r)(frame_id := None),
                             curr_size_m := curr_size_m r - 1\<rparr>)))"

definition LRUKReplacer_Remove :: "LRUKReplacer \<Rightarrow> frame_id_t \<Rightarrow> fault + LRUKReplacer" where
  "LRUKReplacer_Remove r frame_id = RemoveInternal r frame_id"

text \<open>The loops of \<open>Evict\<close>: the first node of a list whose flag is set.\<close>

fun first_evictable :: "Node list \<Rightarrow> Node option" where
  "first_evictable [] = None"
| "first_evictable (node # nodes) = (if evictable_m node then Some node else first_evictable nodes)"

definition Evict :: "LRUKReplacer \<Rightarrow> fault + (LRUKReplacer \<times> frame_id_t option)" where
  "Evict r =
     (case first_evictable (inf_list_m r) of
        Some node \<Rightarrow>
          (case RemoveInternal r (frame_id_m node) of
             Inl e \<Rightarrow> Inl e
           | Inr r' \<Rightarrow> Inr (r', Some (frame_id_m node)))
      | None \<Rightarrow>
          (case first_evictable (countable_list_m r) of
             Some node \<Rightarrow>
               (case RemoveInternal r (frame_id_m node) of
                  Inl e \<Rightarrow> Inl e
                | Inr r' \<Rightarrow> Inr (r', Some (frame_id_m node)))
           | None \<Rightarrow> Inr (r, None)))"

definition Size :: "LRUKReplacer \<Rightarrow> 64 word" where
  "Size r = curr_size_m r"

section \<open>Buffer pool manager (buffer\_pool\_manager\_instance.cpp)\<close>

text \<open>
  Modelled from the spec: the class \<open>Page\<close> is declared in page.h, which is not among
  the sources. A frame "owns a fixed-size byte buffer plus metadata: bound \<open>page_id\<close>
  (or \<open>INVALID\<close>), \<open>pin_count\<close>, \<open>is_dirty\<close> boolean"; \<open>ResetMemory\<close> zeroes the
  buffer.
\<close>

record Page =
  data_m :: "8 word list"
  page_id_m :: page_id_t
  pin_count_m :: int
  is_dirty_m :: bool

definition new_Page :: "nat \<Rightarrow> Page" where
  "new_Page page_size =
     \<lparr>data_m = replicate page_size 0, page_id_m = INVALID_PAGE_ID, pin_count_m = 0,
      is_dirty_m = False\<rparr>"

definition GetData :: "Page \<Rightarrow> 8 word list" where
  "GetData page = data_m page"

definition GetPageId :: "Page \<Rightarrow> page_id_t" where
  "GetPageId page = page_id_m page"

definition GetPinCount :: "Page \<Rightarrow> int" where
  "GetPinCount page = pin_count_m page"

definition IsDirty :: "Page \<Rightarrow> bool" where
  "IsDirty page = is_dirty_m page"

definition ResetMemory :: "Page \<Rightarrow> Page" where
  "ResetMemory page = page\<lparr>data_m := replicate (length (data_m page)) 0\<rparr>"

text \<open>
  Modelled from the spec: the disk manager is an external collaborator with
  "synchronous \<open>ReadPage(page_id, buffer)\<close> and \<open>WritePage(page_id, buffer)\<close>", both
  total, and \<open>DeallocatePage\<close> is a "no-op placeholder" of
  buffer\_pool\_manager\_instance.h. The model keeps the image of every page on disk
  (\<open>disk_m\<close>) and the list of the calls made to the collaborators (\<open>calls_m\<close>);
  neither is a member of the source's class.
\<close>

datatype call = ReadPage_call page_id_t | WritePage_call page_id_t "8 word list"
  | DeallocatePage_call page_id_t

record BufferPoolManagerInstance =
  pool_size_m :: nat
  pages_m :: "Page list"
  page_table_m :: "(page_id_t, frame_id_t) ExtendibleHashTable"
  replacer_m :: LRUKReplacer
  free_list_m :: "frame_id_t list"
  next_page_id_m :: page_id_t
  disk_m :: "page_id_t \<Rightarrow> 8 word list"
  calls_m :: "call list"

text \<open>
  The constructor. The bucket size of the page table is a constant of the header, and
  the page size one of the configuration: both are arguments here, as is the content
  of the disk.
\<close>

definition new_BufferPoolManagerInstance ::
  "nat \<Rightarrow> nat \<Rightarrow> nat \<Rightarrow> nat \<Rightarrow> (page_id_t \<Rightarrow> 8 word list) \<Rightarrow> BufferPoolManagerInstance" where
  "new_BufferPoolManagerInstance pool_size replacer_k bucket_size page_size disk =
     \<lparr>pool_size_m = pool_size,
      pages_m = replicate pool_size (new_Page page_size),
      page_table_m = new_ExtendibleHashTable bucket_size,
      replacer_m = new_LRUKReplacer pool_size replacer_k,
      free_list_m = map int [0..<pool_size],
      next_page_id_m = 0,
      disk_m = disk,
      calls_m = []\<rparr>"

definition ReadPage :: "BufferPoolManagerInstance \<Rightarrow> page_id_t \<Rightarrow> nat \<Rightarrow> BufferPoolManagerInstance" where
  "ReadPage bp page_id i =
     bp\<lparr>pages_m := (pages_m bp)[i := (pages_m bp ! i)\<lparr>data_m := disk_m bp page_id\<rparr>],
        calls_m := calls_m bp @ [ReadPage_call page_id]\<rparr>"

definition WritePage ::
  "BufferPoolManagerInstance \<Rightarrow> page_id_t \<Rightarrow> 8 word list \<Rightarrow> BufferPoolManagerInstance" where
  "WritePage bp page_id bytes =
     bp\<lparr>disk_m := (disk_m bp)(page_id := bytes),
        calls_m := calls_m bp @ [WritePage_call page_id bytes]\<rparr>"

definition DeallocatePage :: "BufferPoolManagerInstance \<Rightarrow> page_id_t \<Rightarrow> BufferPoolManagerInstance" where
  "DeallocatePage bp page_id = bp\<lparr>calls_m := calls_m bp @ [DeallocatePage_call page_id]\<rparr>"

definition AllocatePage :: "BufferPoolManagerInstance \<Rightarrow> BufferPoolManagerInstance \<times> page_id_t" where
  "AllocatePage bp = (bp\<lparr>next_page_id_m := next_page_id_m bp + 1\<rparr>, next_page_id_m bp)"

text \<open>\<open>&pages_[frame_id]\<close>: the index of the frame, a fault outside the array.\<close>

definition frame_at :: "BufferPoolManagerInstance \<Rightarrow> frame_id_t \<Rightarrow> fault + nat" where
  "frame_at bp frame_id =
     (if 0 \<le> frame_id \<and> nat frame_id < length (pages_m bp) then Inr (nat frame_id)
      else Inl OutOfRange)"

text \<open>
  The file of the page table holds two listings of \<open>Insert\<close>, so the operations that
  insert into the page table take the \<open>Insert\<close> they call as the argument \<open>ins\<close>;
  \<open>Insert_1st\<close> and \<open>Insert_2nd\<close> are the two. A first-listing \<open>Insert\<close> that never
  ends is the fault \<open>NoReturn\<close> of its caller.
\<close>

definition Insert_1st ::
  "('k \<Rightarrow> nat) \<Rightarrow> ('k, 'v) ExtendibleHashTable \<Rightarrow> 'k \<Rightarrow> 'v \<Rightarrow> fault + ('k, 'v) ExtendibleHashTable" where
  "Insert_1st h t key val = (case Insert h t key val of None \<Rightarrow> Inl NoReturn | Some res \<Rightarrow> res)"

definition Insert_2nd ::
  "nat \<Rightarrow> ('k \<Rightarrow> nat) \<Rightarrow> ('k, 'v) ExtendibleHashTable \<Rightarrow> 'k \<Rightarrow> 'v \<Rightarrow> fault + ('k, 'v) ExtendibleHashTable" where
  "Insert_2nd n h t key val = Insert2 n h t key val"

text \<open>
  Lines 46-53 of \<open>GetNewPage\<close>: the frame comes from the free list, else from the
  replacer; \<open>None\<close> when neither has one. The result of \<open>Evict\<close> is not looked at:
  when it returns false, \<open>frame_id\<close> is still \<open>-1\<close>.
\<close>

definition acquire_frame ::
  "BufferPoolManagerInstance \<Rightarrow> fault + (BufferPoolManagerInstance \<times> frame_id_t) option" where
  "acquire_frame bp =
     (if free_list_m bp \<noteq> []
      then Inr (Some (bp\<lparr>free_list_m := tl (free_list_m bp)\<rparr>, hd (free_list_m bp)))
      else if Size (replacer_m bp) > 0
      then
        (case Evict (replacer_m bp) of
           Inl e \<Rightarrow> Inl e
         | Inr (r, victim) \<Rightarrow>
             Inr (Some (bp\<lparr>replacer_m := r\<rparr>, (case victim of None \<Rightarrow> - 1 | Some f \<Rightarrow> f))))
      else Inr None)"

type_synonym page_table_insert =
  "(page_id_t, frame_id_t) ExtendibleHashTable \<Rightarrow> page_id_t \<Rightarrow> frame_id_t
     \<Rightarrow> fault + (page_id_t, frame_id_t) ExtendibleHashTable"

definition GetNewPage ::
  "page_table_insert \<Rightarrow> (page_id_t \<Rightarrow> nat) \<Rightarrow> BufferPoolManagerInstance \<Rightarrow> page_id_t
     \<Rightarrow> fault + (BufferPoolManagerInstance \<times> page_id_t)" where
  "GetNewPage ins h bp page_id_arg =
     (case acquire_frame bp of
        Inl e \<Rightarrow> Inl e
      | Inr None \<Rightarrow> Inr (bp, INVALID_PAGE_ID)
      | Inr (Some (bp1, frame_id)) \<Rightarrow>
          (case frame_at bp1 frame_id of
             Inl e \<Rightarrow> Inl e
           | Inr i \<Rightarrow>
               (let page = pages_m bp1 ! i;
                    (bp2, page_id) = (if page_id_arg = INVALID_PAGE_ID then AllocatePage bp1
                                      else (bp1, page_id_arg));
                    bp3 = (if IsDirty page then WritePage bp2 (GetPageId page) (GetData page)
                           else bp2)
                in case Remove h (page_table_m bp3) (GetPageId page) of
                     Inl e \<Rightarrow> Inl e
                   | Inr (removed, pt) \<Rightarrow>
                       (let page' = ResetMemory
                                      (page\<lparr>is_dirty_m := False, page_id_m := page_id,
                                            pin_count_m := 1\<rparr>);
                            bp4 = bp3\<lparr>pages_m := (pages_m bp3)[i := page']\<rparr>
                        in case ins pt (GetPageId page') frame_id of
                             Inl e \<Rightarrow> Inl e
                           | Inr pt' \<Rightarrow>
                               (case SetEvictable (replacer_m bp4) frame_id False of
                                  Inl e \<Rightarrow> Inl e
                                | Inr r1 \<Rightarrow>
                                    (case RecordAccess r1 frame_id of
                                       Inl e \<Rightarrow> Inl e
                                     | Inr r2 \<Rightarrow>
                                         Inr (bp4\<lparr>page_table_m := pt', replacer_m := r2\<rparr>,
                                              page_id)))))))"

text \<open>
  The operations return the frame as its index in \<open>pages_\<close>; \<open>None\<close> is \<open>nullptr\<close>.
  A \<open>Find\<close> that fails leaves its output argument \<open>frame_id\<close> as it was.
\<close>

definition NewPgImp ::
  "page_table_insert \<Rightarrow> (page_id_t \<Rightarrow> nat) \<Rightarrow> BufferPoolManagerInstance
     \<Rightarrow> fault + (BufferPoolManagerInstance \<times> page_id_t \<times> nat option)" where
  "NewPgImp ins h bp =
     (case GetNewPage ins h bp INVALID_PAGE_ID of
        Inl e \<Rightarrow> Inl e
      | Inr (bp1, page_id) \<Rightarrow>
          if page_id = INVALID_PAGE_ID then Inr (bp1, page_id, None)
          else
            (case Find h (page_table_m bp1) page_id of
               Inl e \<Rightarrow> Inl e
             | Inr found \<Rightarrow>
                 (let frame_id = (case found of None \<Rightarrow> - 1 | Some f \<Rightarrow> f)
                  in case frame_at bp1 frame_id of
                       Inl e \<Rightarrow> Inl e
                     | Inr i \<Rightarrow> Inr (bp1, page_id, Some i))))"

definition FetchPgImp ::
  "page_table_insert \<Rightarrow> (page_id_t \<Rightarrow> nat) \<Rightarrow> BufferPoolManagerInstance \<Rightarrow> page_id_t
     \<Rightarrow> fault + (BufferPoolManagerInstance \<times> nat option)" where
  "FetchPgImp ins h bp page_id_arg =
     (case Find h (page_table_m bp) page_id_arg of
        Inl e \<Rightarrow> Inl e
      | Inr found \<Rightarrow>
          (let frame_id0 = (case found of None \<Rightarrow> - 1 | Some f \<Rightarrow> f)
           in case (if found = None then GetNewPage ins h bp page_id_arg
                    else Inr (bp, page_id_arg)) of
                Inl e \<Rightarrow> Inl e
              | Inr (bp1, page_id) \<Rightarrow>
                  if found = None \<and> page_id = INVALID_PAGE_ID then Inr (bp1, None)
                  else
                    (case Find h (page_table_m bp1) page_id of
                       Inl e \<Rightarrow> Inl e
                     | Inr found' \<Rightarrow>
                         (let frame_id = (case found' of None \<Rightarrow> frame_id0 | Some f \<Rightarrow> f)
                          in case frame_at bp1 frame_id of
                               Inl e \<Rightarrow> Inl e
                             | Inr i \<Rightarrow> Inr (ReadPage bp1 page_id i, Some i)))))"

definition UnpinPgImp ::
  "(page_id_t \<Rightarrow> nat) \<Rightarrow> BufferPoolManagerInstance \<Rightarrow> page_id_t \<Rightarrow> bool
     \<Rightarrow> fault + (BufferPoolManagerInstance \<times> bool)" where
  "UnpinPgImp h bp page_id is_dirty =
     (case Find h (page_table_m bp) page_id of
        Inl e \<Rightarrow> Inl e
      | Inr None \<Rightarrow> Inr (bp, False)
      | Inr (Some frame_id) \<Rightarrow>
          (case frame_at bp frame_id of
             Inl e \<Rightarrow> Inl e
           | Inr i \<Rightarrow>
               (let page = pages_m bp ! i
                in if GetPinCount page \<le> 0 then Inr (bp, False)
                   else
                     (let page1 = page\<lparr>is_dirty_m := (is_dirty_m page \<or> is_dirty)\<rparr>;
                          page2 = page1\<lparr>pin_count_m := pin_count_m page1 - 1\<rparr>;
                          bp1 = bp\<lparr>pages_m := (pages_m bp)[i := page2]\<rparr>
                      in if pin_count_m page2 = 0
                         then
                           (case SetEvictable (replacer_m bp1) frame_id True of
                              Inl e \<Rightarrow> Inl e
                            | Inr r \<Rightarrow> Inr (bp1\<lparr>replacer_m := r\<rparr>, True))
                         else Inr (bp1, True)))))"

definition FlushPgImp ::
  "(page_id_t \<Rightarrow> nat) \<Rightarrow> BufferPoolManagerInstance \<Rightarrow> page_id_t
     \<Rightarrow> fault + (BufferPoolManagerInstance \<times> bool)" where
  "FlushPgImp h bp page_id =
     (case Find h (page_table_m bp) page_id of
        Inl e \<Rightarrow> Inl e
      | Inr None \<Rightarrow> Inr (bp, False)
      | Inr (Some frame_id) \<Rightarrow>
          (case frame_at bp frame_id of
             Inl e \<Rightarrow> Inl e
           | Inr i \<Rightarrow>
               (let page = pages_m bp ! i;
                    bp1 = WritePage bp page_id (GetData page)
                in Inr (bp1\<lparr>pages_m := (pages_m bp1)[i := page\<lparr>is_dirty_m := False\<rparr>]\<rparr>, True))))"

definition DeletePgImp ::
  "(page_id_t \<Rightarrow> nat) \<Rightarrow> BufferPoolManagerInstance \<Rightarrow> page_id_t
     \<Rightarrow> fault + (BufferPoolManagerInstance \<times> bool)" where
  "DeletePgImp h bp page_id =
     (case Find h (page_table_m bp) page_id of
        Inl e \<Rightarrow> Inl e
      | Inr None \<Rightarrow> Inr (bp, True)
      | Inr (Some frame_id) \<Rightarrow>
          (case frame_at bp frame_id of
             Inl e \<Rightarrow> Inl e
           | Inr i \<Rightarrow>
               (let page = pages_m bp ! i
                in if GetPinCount page > 0 then Inr (bp, False)
                   else
                     (case Remove h (page_table_m bp) page_id of
                        Inl e \<Rightarrow> Inl e
                      | Inr (removed, pt) \<Rightarrow>
                          (case LRUKReplacer_Remove (replacer_m bp) frame_id of
                             Inl e \<Rightarrow> Inl e
                           | Inr r \<Rightarrow>
                               (let page' = ResetMemory
                                              (page\<lparr>is_dirty_m := False,
                                                    page_id_m := INVALID_PAGE_ID,
                                                    pin_count_m := 0\<rparr>);
                                    bp1 = bp\<lparr>page_table_m := pt, replacer_m := r,
                                             free_list_m := free_list_m bp @ [frame_id],
                                             pages_m := (pages_m bp)[i := page']\<rparr>
                                in Inr (DeallocatePage bp1 page_id, True)))))))"

section \<open>Notions of the properties and example states\<close>

text \<open>
  A page is resident when the page table maps it to a frame of the pool:
  \<open>bound_frame\<close> is the index of that frame. A frame is tracked by the replacer when
  \<open>hash_\<close> has an entry for it, and evictable when the node of that entry has its flag
  set.
\<close>

definition bound_frame :: "(page_id_t \<Rightarrow> nat) \<Rightarrow> BufferPoolManagerInstance \<Rightarrow> page_id_t \<Rightarrow> nat option" where
  "bound_frame h bp page_id =
     (case Find h (page_table_m bp) page_id of
        Inl e \<Rightarrow> None
      | Inr None \<Rightarrow> None
      | Inr (Some frame_id) \<Rightarrow>
          (case frame_at bp frame_id of Inl e \<Rightarrow> None | Inr i \<Rightarrow> Some i))"

definition tracked :: "LRUKReplacer \<Rightarrow> frame_id_t \<Rightarrow> bool" where
  "tracked r frame_id = (hash_m r frame_id \<noteq> None)"

definition is_evictable :: "LRUKReplacer \<Rightarrow> frame_id_t \<Rightarrow> bool" where
  "is_evictable r frame_id =
     (case hash_m r frame_id of
        None \<Rightarrow> False
      | Some it \<Rightarrow>
          (case node_of (list_of r it) frame_id of None \<Rightarrow> False | Some node \<Rightarrow> evictable_m node))"
text \<open>
  The examples hash \<open>int\<close> keys as libstdc++'s \<open>std::hash<int>\<close> does, by conversion
  to \<open>size_t\<close>. The example pools have two frames of four bytes, \<open>k = 2\<close>, and a disk
  whose page \<open>p\<close> holds four bytes \<open>p\<close>: \<open>pool0\<close> is new, \<open>pool1\<close> has fetched page
  5, in \<open>pool2\<close> the caller has overwritten the frame and unpinned it dirty, \<open>pool3\<close> is
  \<open>pool0\<close> after \<open>FetchPage(INVALID_PAGE_ID)\<close>, and \<open>pool4\<close> is \<open>pool2\<close> after
  \<open>DeletePage(5)\<close>.
\<close>

definition std_hash_int :: "int \<Rightarrow> nat" where
  "std_hash_int x = nat (x mod 2 ^ 64)"

definition disk0 :: "page_id_t \<Rightarrow> 8 word list" where
  "disk0 p = replicate 4 (if p < 0 then 255 else word_of_int p)"

definition pool0 :: BufferPoolManagerInstance where
  "pool0 = new_BufferPoolManagerInstance 2 2 4 4 disk0"

definition pool1 :: BufferPoolManagerInstance where
  "pool1 =
     \<lparr>pool_size_m = 2,
      pages_m = [\<lparr>data_m = [5, 5, 5, 5], page_id_m = 5, pin_count_m = 1, is_dirty_m = False\<rparr>,
                 \<lparr>data_m = [0, 0, 0, 0], page_id_m = - 1, pin_count_m = 0, is_dirty_m = False\<rparr>],
      page_table_m = \<lparr>global_depth_m = 0, bucket_size_m = 4, num_buckets_m = 1, dir_m = [0],
                       heap_m = [\<lparr>size_m = 4, depth_m = 0, list_m = [(5, 0)]\<rparr>]\<rparr>,
      replacer_m = \<lparr>replacer_size_m = 2, k_m = 2, curr_size_m = 0,
                     inf_list_m = [\<lparr>frame_id_m = 0, access_count_m = 1, evictable_m = False\<rparr>],
                     countable_list_m = [], hash_m = [0 \<mapsto> In_inf_list]\<rparr>,
      free_list_m = [1], next_page_id_m = 0, disk_m = disk0, calls_m = [ReadPage_call 5]\<rparr>"

definition pool2 :: BufferPoolManagerInstance where
  "pool2 =
     \<lparr>pool_size_m = 2,
      pages_m = [\<lparr>data_m = [9, 9, 9, 9], page_id_m = 5, pin_count_m = 0, is_dirty_m = True\<rparr>,
                 \<lparr>data_m = [0, 0, 0, 0], page_id_m = - 1, pin_count_m = 0, is_dirty_m = False\<rparr>],
      page_table_m = \<lparr>global_depth_m = 0, bucket_size_m = 4, num_buckets_m = 1, dir_m = [0],
                       heap_m = [\<lparr>size_m = 4, depth_m = 0, list_m = [(5, 0)]\<rparr>]\<rparr>,
      replacer_m = \<lparr>replacer_size_m = 2, k_m = 2, curr_size_m = 1,
                     inf_list_m = [\<lparr>frame_id_m = 0, access_count_m = 1, evictable_m = True\<rparr>],
                     countable_list_m = [], hash_m = [0 \<mapsto> In_inf_list]\<rparr>,
      free_list_m = [1], next_page_id_m = 0, disk_m = disk0, calls_m = [ReadPage_call 5]\<rparr>"

text \<open>The keys of the bucket that a key's directory entry refers to are distinct.\<close>

definition unique_keys :: "('k \<Rightarrow> nat) \<Rightarrow> ('k, 'v) ExtendibleHashTable \<Rightarrow> 'k \<Rightarrow> bool" where
  "unique_keys h t key =
     (case dir_at t (IndexOf h t key) of
        Inl e \<Rightarrow> False
      | Inr a \<Rightarrow> distinct (map fst (list_m (heap_m t ! a))))"

definition pool3 :: BufferPoolManagerInstance where
  "pool3 =
     \<lparr>pool_size_m = 2,
      pages_m = [\<lparr>data_m = [0, 0, 0, 0], page_id_m = 0, pin_count_m = 1, is_dirty_m = False\<rparr>,
                 \<lparr>data_m = [0, 0, 0, 0], page_id_m = - 1, pin_count_m = 0, is_dirty_m = False\<rparr>],
      page_table_m = \<lparr>global_depth_m = 0, bucket_size_m = 4, num_buckets_m = 1, dir_m = [0],
                       heap_m = [\<lparr>size_m = 4, depth_m = 0, list_m = [(0, 0)]\<rparr>]\<rparr>,
      replacer_m = \<lparr>replacer_size_m = 2, k_m = 2, curr_size_m = 0,
                     inf_list_m = [\<lparr>frame_id_m = 0, access_count_m = 1, evictable_m = False\<rparr>],
                     countable_list_m = [], hash_m = [0 \<mapsto> In_inf_list]\<rparr>,
      free_list_m = [1], next_page_id_m = 1, disk_m = disk0, calls_m = [ReadPage_call 0]\<rparr>"
definition pool4 :: BufferPoolManagerInstance where
  "pool4 =
     \<lparr>pool_size_m = 2,
      pages_m = [\<lparr>data_m = [0, 0, 0, 0], page_id_m = - 1, pin_count_m = 0, is_dirty_m = False\<rparr>,
                 \<lparr>data_m = [0, 0, 0, 0], page_id_m = - 1, pin_count_m = 0, is_dirty_m = False\<rparr>],
      page_table_m = \<lparr>global_depth_m = 0, bucket_size_m = 4, num_buckets_m = 1, dir_m = [0],
                       heap_m = [\<lparr>size_m = 4, depth_m = 0, list_m = []\<rparr>]\<rparr>,
      replacer_m = \<lparr>replacer_size_m = 2, k_m = 2, curr_size_m = 0,
                     inf_list_m = [], countable_list_m = [], hash_m = Map.empty\<rparr>,
      free_list_m = [1, 0], next_page_id_m = 0, disk_m = disk0,
      calls_m = [ReadPage_call 5, DeallocatePage_call 5]\<rparr>"

text \<open>
  The state of the replacer that the source maintains: no frame has two nodes, the nodes
  of \<open>inf_list_\<close> have fewer than \<open>k_\<close> accesses and those of \<open>countable_list_\<close> at
  least \<open>k_\<close>, and \<open>hash_\<close> has exactly the frames of the two lists, each with an
  iterator into its list.
\<close>

definition replacer_inv :: "LRUKReplacer \<Rightarrow> bool" where
  "replacer_inv r \<longleftrightarrow>
     distinct (map frame_id_m (inf_list_m r @ countable_list_m r)) \<and>
     (\<forall>n \<in> set (inf_list_m r).
        hash_m r (frame_id_m n) = Some In_inf_list \<and> access_count_m n < k_m r) \<and>
     (\<forall>n \<in> set (countable_list_m r).
        hash_m r (frame_id_m n) = Some In_countable_list \<and> k_m r \<le> access_count_m n) \<and>
     dom (hash_m r) = frame_id_m ` set (inf_list_m r @ countable_list_m r)"

text \<open>A run of accesses, then of \<open>SetEvictable(frame, true)\<close> calls, then one \<open>Evict\<close>.\<close>

fun RecordAccess_all :: "LRUKReplacer \<Rightarrow> frame_id_t list \<Rightarrow> fault + LRUKReplacer" where
  "RecordAccess_all r [] = Inr r"
| "RecordAccess_all r (f # fs) =
     (case RecordAccess r f of Inl e \<Rightarrow> Inl e | Inr r' \<Rightarrow> RecordAccess_all r' fs)"

fun SetEvictable_all :: "LRUKReplacer \<Rightarrow> frame_id_t list \<Rightarrow> fault + LRUKReplacer" where
  "SetEvictable_all r [] = Inr r"
| "SetEvictable_all r (f # fs) =
     (case SetEvictable r f True of Inl e \<Rightarrow> Inl e | Inr r' \<Rightarrow> SetEvictable_all r' fs)"

definition victim_after :: "nat \<Rightarrow> nat \<Rightarrow> frame_id_t list \<Rightarrow> fault + frame_id_t option" where
  "victim_after num_frames k accesses =
     (case RecordAccess_all (new_LRUKReplacer num_frames k) accesses of
        Inl e \<Rightarrow> Inl e
      | Inr r \<Rightarrow>
          (case SetEvictable_all r (remdups accesses) of
             Inl e \<Rightarrow> Inl e
           | Inr r' \<Rightarrow> (case Evict r' of Inl e \<Rightarrow> Inl e | Inr (r'', victim) \<Rightarrow> Inr victim)))"

text \<open>
  The victim the specification names for such a run, in its words: among the frames with
  fewer than \<open>k\<close> accesses "the earliest-first-recorded" one, and only if there is none
  "the earliest-reached-K" one of the others. \<open>first_recorded_order\<close> lists the frames
  by their first access, \<open>reached_K_order\<close> by their \<open>k\<close>-th access.
\<close>

definition first_recorded_order :: "frame_id_t list \<Rightarrow> frame_id_t list" where
  "first_recorded_order accesses = rev (remdups (rev accesses))"

fun reached_K_order :: "nat \<Rightarrow> frame_id_t list \<Rightarrow> frame_id_t list \<Rightarrow> frame_id_t list" where
  "reached_K_order k seen [] = []"
| "reached_K_order k seen (f # fs) =
     (if count_list seen f + 1 = k then f # reached_K_order k (seen @ [f]) fs
      else reached_K_order k (seen @ [f]) fs)"

definition spec_victim :: "nat \<Rightarrow> frame_id_t list \<Rightarrow> frame_id_t option" where
  "spec_victim k accesses =
     (case filter (\<lambda>f. count_list accesses f < k) (first_recorded_order accesses) of
        f # fs \<Rightarrow> Some f
      | [] \<Rightarrow> (case reached_K_order k [] accesses of f # fs \<Rightarrow> Some f | [] \<Rightarrow> None))"
text \<open>Two states of the replacer, with frames 1 and 2 evictable.\<close>

definition replacer_A :: LRUKReplacer where
  "replacer_A =
     \<lparr>replacer_size_m = 4, k_m = 3, curr_size_m = 2,
      inf_list_m = [\<lparr>frame_id_m = 2, access_count_m = 1, evictable_m = True\<rparr>,
                    \<lparr>frame_id_m = 1, access_count_m = 2, evictable_m = True\<rparr>],
      countable_list_m = [],
      hash_m = [2 \<mapsto> In_inf_list, 1 \<mapsto> In_inf_list]\<rparr>"

definition replacer_B :: LRUKReplacer where
  "replacer_B =
     \<lparr>replacer_size_m = 4, k_m = 2, curr_size_m = 2,
      inf_list_m = [\<lparr>frame_id_m = 3, access_count_m = 1, evictable_m = False\<rparr>],
      countable_list_m = [\<lparr>frame_id_m = 2, access_count_m = 2, evictable_m = True\<rparr>,
                          \<lparr>frame_id_m = 1, access_count_m = 3, evictable_m = True\<rparr>],
      hash_m = [2 \<mapsto> In_countable_list, 1 \<mapsto> In_countable_list, 3 \<mapsto> In_inf_list]\<rparr>"

text \<open>
  The property of C3, for the buckets the directory refers to: the number of entries
  holding the address of a bucket is \<open>2 ^ (global_depth - local_depth)\<close>.
\<close>

definition ref_counts_ok :: "('k, 'v) ExtendibleHashTable \<Rightarrow> bool" where
  "ref_counts_ok t \<longleftrightarrow>
     (\<forall>a \<in> set (dir_m t).
        count_list (dir_m t) a = 2 ^ (global_depth_m t - GetDepth (heap_m t ! a)))"

text \<open>
  Example tables with buckets of one pair and keys hashed by \<open>std_hash_int\<close>:
  \<open>table_01\<close> holds the keys 0 and 1, \<open>table_012\<close> also 2, \<open>table_0124\<close> also 4, and
  \<open>table_01243\<close> also 3, each as the second listing's \<open>Insert\<close> leaves it.
\<close>

definition table_01 :: "(int, string) ExtendibleHashTable" where
  "table_01 =
     \<lparr>global_depth_m = 1, bucket_size_m = 1, num_buckets_m = 2, dir_m = [0, 1],
      heap_m = [\<lparr>size_m = 1, depth_m = 1, list_m = [(0, ''a'')]\<rparr>,
                \<lparr>size_m = 1, depth_m = 1, list_m = [(1, ''b'')]\<rparr>]\<rparr>"

definition table_012 :: "(int, string) ExtendibleHashTable" where
  "table_012 =
     \<lparr>global_depth_m = 2, bucket_size_m = 1, num_buckets_m = 4, dir_m = [0, 1, 2, 1],
      heap_m = [\<lparr>size_m = 1, depth_m = 2, list_m = [(0, ''a'')]\<rparr>,
                \<lparr>size_m = 1, depth_m = 1, list_m = [(1, ''b'')]\<rparr>,
                \<lparr>size_m = 1, depth_m = 2, list_m = [(2, ''c'')]\<rparr>]\<rparr>"

definition table_0124 :: "(int, string) ExtendibleHashTable" where
  "table_0124 =
     \<lparr>global_depth_m = 3, bucket_size_m = 1, num_buckets_m = 8,
      dir_m = [0, 1, 2, 1, 3, 1, 2, 1],
      heap_m = [\<lparr>size_m = 1, depth_m = 3, list_m = [(0, ''a'')]\<rparr>,
                \<lparr>size_m = 1, depth_m = 1, list_m = [(1, ''b'')]\<rparr>,
                \<lparr>size_m = 1, depth_m = 2, list_m = [(2, ''c'')]\<rparr>,
                \<lparr>size_m = 1, depth_m = 3, list_m = [(4, ''d'')]\<rparr>]\<rparr>"

definition table_01243 :: "(int, string) ExtendibleHashTable" where
  "table_01243 =
     \<lparr>global_depth_m = 3, bucket_size_m = 1, num_buckets_m = 8,
      dir_m = [0, 1, 2, 4, 3, 1, 2, 1],
      heap_m = [\<lparr>size_m = 1, depth_m = 3, list_m = [(0, ''a'')]\<rparr>,
                \<lparr>size_m = 1, depth_m = 2, list_m = [(1, ''b'')]\<rparr>,
                \<lparr>size_m = 1, depth_m = 2, list_m = [(2, ''c'')]\<rparr>,
                \<lparr>size_m = 1, depth_m = 3, list_m = [(4, ''d'')]\<rparr>,
                \<lparr>size_m = 1, depth_m = 2, list_m = [(3, ''e'')]\<rparr>]\<rparr>"

definition table_0 :: "(int, string) ExtendibleHashTable" where
  "table_0 =
     \<lparr>global_depth_m = 0, bucket_size_m = 1, num_buckets_m = 1, dir_m = [0],
      heap_m = [\<lparr>size_m = 1, depth_m = 0, list_m = [(0, ''a'')]\<rparr>]\<rparr>"

text \<open>
  A table on which the first listing's loop cannot end for \<open>key\<close>: the buckets hold one
  pair, the hash of the key is 0, and the bucket of directory entry 0 holds the key.
\<close>

definition stuck :: "('k \<Rightarrow> nat) \<Rightarrow> ('k, 'v) ExtendibleHashTable \<Rightarrow> 'k \<Rightarrow> bool" where
  "stuck h t key \<longleftrightarrow>
     h key = 0 \<and> bucket_size_m t = 1 \<and>
     (case dir_at t 0 of
        Inl e \<Rightarrow> False
      | Inr a \<Rightarrow> size_m (heap_m t ! a) = 1 \<and> map fst (list_m (heap_m t ! a)) = [key])"
text \<open>The table after \<open>n\<close> iterations of the first listing's loop for \<open>key\<close>.\<close>

fun splits :: "nat \<Rightarrow> ('k \<Rightarrow> nat) \<Rightarrow> ('k, 'v) ExtendibleHashTable \<Rightarrow> 'k \<Rightarrow> ('k, 'v) ExtendibleHashTable" where
  "splits 0 h t key = t"
| "splits (Suc n) h t key = splits n h (split_step h t (IndexOf h t key)) key"

text \<open>The condition of the loop: the bucket of the key's directory entry is full.\<close>

definition target_full :: "('k \<Rightarrow> nat) \<Rightarrow> ('k, 'v) ExtendibleHashTable \<Rightarrow> 'k \<Rightarrow> bool" where
  "target_full h t key =
     (case dir_at t (IndexOf h t key) of Inl e \<Rightarrow> False | Inr a \<Rightarrow> IsFull (heap_m t ! a))"

text \<open>
  The shape of the directory: it has \<open>2 ^ global_depth\<close> entries, each holds the address
  of a bucket whose local depth is at most the global depth, and two entries hold the same
  bucket exactly when their indexes agree on the low \<open>local_depth\<close> bits.
\<close>

definition dir_shape :: "nat \<Rightarrow> nat list \<Rightarrow> (nat \<Rightarrow> nat) \<Rightarrow> nat \<Rightarrow> bool" where
  "dir_shape g dir depth n \<longleftrightarrow>
     length dir = 2 ^ g \<and>
     (\<forall>i < length dir.
        dir ! i < n \<and> depth (dir ! i) \<le> g \<and>
        (\<forall>j < length dir.
           dir ! j = dir ! i \<longleftrightarrow> j mod 2 ^ depth (dir ! i) = i mod 2 ^ depth (dir ! i)))"

definition dir_inv :: "('k, 'v) ExtendibleHashTable \<Rightarrow> bool" where
  "dir_inv t \<longleftrightarrow>
     dir_shape (global_depth_m t) (dir_m t) (\<lambda>a. depth_m (heap_m t ! a)) (length (heap_m t))"

section \<open>Buffer pool manager: properties\<close>

text \<open>The cast \<open>(int)replacer_size_\<close> is the identity below \<open>2 ^ 31\<close>.\<close>

lemma int_cast_small: "n < 2 ^ 31 \<Longrightarrow> int_cast n = int n"
proof -
  assume n: "n < 2 ^ 31"
  then have t: "take_bit 32 n = n"
    by (simp add: take_bit_nat_eq_self_iff)
  have "sint (word_of_nat n :: 32 word) = signed_take_bit 31 (int n)"
    by (simp add: sint_uint unsigned_of_nat t)
  also have "\<dots> = int n"
    using n by (intro signed_take_bit_int_eq_self) simp_all
  finally show ?thesis
    by (simp add: int_cast_def)
qed

lemma int_cast_eval: "n < 2147483648 \<Longrightarrow> int_cast n = int n"
  by (simp add: int_cast_small)

lemmas eval_defs = FetchPgImp_def GetNewPage_def acquire_frame_def frame_at_def Find_def Remove_def
  UnpinPgImp_def DeletePgImp_def GetPinCount_def DeallocatePage_def
  dir_at_def IndexOf_def Bucket_Find_def Bucket_Remove_def Bucket_Insert_def IsFull_def
  Insert_1st_def Insert_def Insert_2nd_def Insert2_def
  SetEvictable_def RecordAccess_def frame_id_assertion_def int_cast_eval new_Node_def list_of_def
  assign_evictable_def LRUKReplacer_Remove_def RemoveInternal_def Evict_def
  ReadPage_def WritePage_def AllocatePage_def ResetMemory_def IsDirty_def GetPageId_def GetData_def
  INVALID_PAGE_ID_def std_hash_int_def disk0_def bound_frame_def tracked_def is_evictable_def
  new_BufferPoolManagerInstance_def new_Page_def new_ExtendibleHashTable_def new_Bucket_def
  new_LRUKReplacer_def Size_def

lemma upt_2: "[0..<2] = [0, 1]"
  by (simp add: upt_rec)

lemma replicate_4: "replicate 4 x = [x, x, x, x]"
  by (simp add: numeral_eq_Suc)

lemma bound_frameD:
  "bound_frame h bp p = Some i \<Longrightarrow>
     Find h (page_table_m bp) p = Inr (Some (int i)) \<and> frame_at bp (int i) = Inr i
       \<and> i < length (pages_m bp)"
  by (auto simp: bound_frame_def frame_at_def split: sum.splits option.splits if_splits)

lemma SetEvictable_True_marks:
  assumes "SetEvictable r f True = Inr r'" and "tracked r f"
  shows "is_evictable r' f"
proof -
  have set_node: "\<And>ns n. node_of ns f = Some n \<Longrightarrow>
      node_of (set_evictable ns f True) f = Some (n\<lparr>evictable_m := True\<rparr>)"
  proof -
    fix ns n show "node_of ns f = Some n \<Longrightarrow>
      node_of (set_evictable ns f True) f = Some (n\<lparr>evictable_m := True\<rparr>)"
      by (induction ns) (auto split: if_splits)
  qed
  from assms show ?thesis
    by (auto simp: SetEvictable_def tracked_def is_evictable_def assign_evictable_def list_of_def
          set_node split: if_splits option.splits list_tag.splits)
qed

text \<open>
  C7: \<open>UnpinPage(p, d)\<close> returns false and changes nothing when \<open>p\<close> is not
  resident or the pin count of its frame is zero. Otherwise the frame's dirty flag becomes
  its disjunction with \<open>d\<close>, the pin count goes down by one, and the call returns
  true; the replacer changes exactly when the new pin count is zero, by
  \<open>SetEvictable(frame, true)\<close>, after which a tracked frame is evictable. The frame is
  inside the pool and its pin count is not negative.
\<close>
theorem UnpinPgImp_cases:
  "(Find h (page_table_m bp) p = Inr None \<longrightarrow> UnpinPgImp h bp p d = Inr (bp, False)) \<and>
   (bound_frame h bp p = Some i \<and> pin_count_m (pages_m bp ! i) = 0 \<longrightarrow>
      UnpinPgImp h bp p d = Inr (bp, False)) \<and>
   (bound_frame h bp p = Some i \<and> 1 < pin_count_m (pages_m bp ! i) \<longrightarrow>
      UnpinPgImp h bp p d =
        Inr (bp\<lparr>pages_m := (pages_m bp)[i := (pages_m bp ! i)
                 \<lparr>is_dirty_m := (is_dirty_m (pages_m bp ! i) \<or> d),
                  pin_count_m := pin_count_m (pages_m bp ! i) - 1\<rparr>]\<rparr>, True)) \<and>
   (bound_frame h bp p = Some i \<and> pin_count_m (pages_m bp ! i) = 1 \<and>
    SetEvictable (replacer_m bp) (int i) True = Inr r \<longrightarrow>
      UnpinPgImp h bp p d =
        Inr (bp\<lparr>pages_m := (pages_m bp)[i := (pages_m bp ! i)
                 \<lparr>is_dirty_m := (is_dirty_m (pages_m bp ! i) \<or> d),
                  pin_count_m := 0\<rparr>],
                replacer_m := r\<rparr>, True)
      \<and> (tracked (replacer_m bp) (int i) \<longrightarrow> is_evictable r (int i)))"
  by (auto simp: UnpinPgImp_def GetPinCount_def Let_def SetEvictable_True_marks dest!: bound_frameD)

theorem UnpinPgImp_cases_witness:
  "UnpinPgImp std_hash_int pool0 5 True = Inr (pool0, False) \<and>
   UnpinPgImp std_hash_int pool2 5 True = Inr (pool2, False) \<and>
   UnpinPgImp std_hash_int
      (pool1\<lparr>pages_m := (pages_m pool1)[0 := (pages_m pool1 ! 0)\<lparr>pin_count_m := 2\<rparr>]\<rparr>) 5 True =
     Inr (pool1\<lparr>pages_m := (pages_m pool1)[0 := (pages_m pool1 ! 0)
                   \<lparr>is_dirty_m := True, pin_count_m := 1\<rparr>]\<rparr>, True) \<and>
   UnpinPgImp std_hash_int (pool1\<lparr>pages_m := (pages_m pool1)[0 := (pages_m pool1 ! 0)\<lparr>data_m := [9, 9, 9, 9]\<rparr>]\<rparr>) 5 True
      = Inr (pool2, True) \<and>
   is_evictable (replacer_m pool2) 0"
proof -
  let ?bpA = "pool1\<lparr>pages_m := (pages_m pool1)[0 := (pages_m pool1 ! 0)\<lparr>pin_count_m := 2\<rparr>]\<rparr>"
  let ?bpB = "pool1\<lparr>pages_m := (pages_m pool1)[0 := (pages_m pool1 ! 0)\<lparr>data_m := [9, 9, 9, 9]\<rparr>]\<rparr>"
  have h0: "Find std_hash_int (page_table_m pool0) 5 = Inr None"
    by (simp add: pool0_def eval_defs)
  have h2: "bound_frame std_hash_int pool2 5 = Some 0 \<and> pin_count_m (pages_m pool2 ! 0) = 0"
    by (simp add: pool2_def eval_defs)
  have hA: "bound_frame std_hash_int ?bpA 5 = Some 0 \<and> 1 < pin_count_m (pages_m ?bpA ! 0)"
    by (simp add: pool1_def eval_defs)
  have hB: "bound_frame std_hash_int ?bpB 5 = Some 0 \<and> pin_count_m (pages_m ?bpB ! 0) = 1 \<and>
            SetEvictable (replacer_m ?bpB) (int 0) True = Inr (replacer_m pool2)"
    by (simp add: pool1_def pool2_def eval_defs)
  have tr: "tracked (replacer_m ?bpB) (int 0)"
    by (simp add: pool1_def eval_defs)
  show ?thesis
    using UnpinPgImp_cases [of std_hash_int pool0 5 True 0 undefined, THEN conjunct1] h0
      UnpinPgImp_cases [of std_hash_int pool2 5 True 0 undefined, THEN conjunct2, THEN conjunct1] h2
      UnpinPgImp_cases [of std_hash_int ?bpA 5 True 0 undefined, THEN conjunct2, THEN conjunct2, THEN conjunct1] hA
      UnpinPgImp_cases [of std_hash_int ?bpB 5 True 0 "replacer_m pool2", THEN conjunct2, THEN conjunct2, THEN conjunct2] hB tr
    by (simp add: pool1_def pool2_def)
qed

lemma find_loop_remove_loop:
  "find_loop ps key = Some v \<Longrightarrow> \<exists>ps'. remove_loop ps key = Some ps'"
  by (induction ps) (auto split: if_splits)

lemma find_loop_None: "find_loop ps key = None \<longleftrightarrow> key \<notin> fst ` set ps"
  by (induction ps) auto

lemma remove_loop_find_loop:
  "remove_loop ps key = Some ps' \<Longrightarrow> distinct (map fst ps) \<Longrightarrow> find_loop ps' key = None"
proof (induction ps arbitrary: ps')
  case Nil
  then show ?case by simp
next
  case (Cons q qs)
  show ?case
  proof (cases "fst q = key")
    case True
    with Cons.prems show ?thesis by (auto simp: find_loop_None)
  next
    case False
    with Cons show ?thesis by (auto split: option.splits)
  qed
qed

lemma Page_all_fields:
  "(page :: Page)\<lparr>is_dirty_m := a, page_id_m := b, pin_count_m := c, data_m := d\<rparr> =
     \<lparr>data_m = d, page_id_m = b, pin_count_m = c, is_dirty_m = a\<rparr>"
  by (cases page) simp

lemma Find_Remove:
  assumes "Find h t key = Inr (Some v)"
  shows "\<exists>pt. Remove h t key = Inr (True, pt) \<and> (unique_keys h t key \<longrightarrow> Find h pt key = Inr None)"
proof -
  from assms obtain a where a: "dir_at t (IndexOf h t key) = Inr a"
    and f: "find_loop (list_m (heap_m t ! a)) key = Some v"
    by (auto simp: Find_def Bucket_Find_def Let_def split: sum.splits)
  from f obtain ps' where r: "remove_loop (list_m (heap_m t ! a)) key = Some ps'"
    using find_loop_remove_loop [OF f] by auto
  let ?pt = "t\<lparr>heap_m := (heap_m t)[a := (heap_m t ! a)\<lparr>list_m := ps'\<rparr>]\<rparr>"
  have 1: "Remove h t key = Inr (True, ?pt)"
    using a r by (simp add: Remove_def Bucket_Remove_def Let_def)
  have idx: "IndexOf h ?pt key = IndexOf h t key"
    by (simp add: IndexOf_def)
  from a have bound: "a < length (heap_m t)"
    by (auto simp: dir_at_def split: if_splits)
  from a have a': "dir_at ?pt (IndexOf h t key) = Inr a"
    by (auto simp: dir_at_def split: if_splits)
  have 2: "unique_keys h t key \<longrightarrow> Find h ?pt key = Inr None"
    using a a' idx bound r
    by (auto simp: unique_keys_def Find_def Bucket_Find_def Let_def remove_loop_find_loop)
  from 1 2 show ?thesis by blast
qed


lemma DeletePgImp_unpinned:
  assumes "bound_frame h bp p = Some i" and "pin_count_m (pages_m bp ! i) \<le> 0"
    and "LRUKReplacer_Remove (replacer_m bp) (int i) = Inr r"
    and "Remove h (page_table_m bp) p = Inr (removed, pt)"
  shows "DeletePgImp h bp p =
     Inr (bp\<lparr>page_table_m := pt, replacer_m := r, free_list_m := free_list_m bp @ [int i],
             pages_m := (pages_m bp)[i :=
               \<lparr>data_m = replicate (length (data_m (pages_m bp ! i))) 0,
                page_id_m = INVALID_PAGE_ID, pin_count_m = 0, is_dirty_m = False\<rparr>],
             calls_m := calls_m bp @ [DeallocatePage_call p]\<rparr>, True)"
  using assms
  by (auto simp: DeletePgImp_def GetPinCount_def ResetMemory_def DeallocatePage_def Let_def
      Page_all_fields dest!: bound_frameD)



text \<open>
  C9: \<open>DeletePage\<close> never changes the disk. On a resident frame that is not pinned,
  whatever its dirty flag, it returns true having made a single call, \<open>DeallocatePage\<close>:
  the frame's bytes are zeroed and its dirty flag cleared without a \<open>WritePage\<close>.
\<close>
theorem DeletePgImp_no_write:
  "(DeletePgImp h bp p = Inr (bp', b) \<longrightarrow> disk_m bp' = disk_m bp) \<and>
   (bound_frame h bp p = Some i \<and> pin_count_m (pages_m bp ! i) \<le> 0 \<and>
    LRUKReplacer_Remove (replacer_m bp) (int i) = Inr r \<longrightarrow>
      (\<exists>bp''. DeletePgImp h bp p = Inr (bp'', True) \<and>
             disk_m bp'' = disk_m bp \<and>
             calls_m bp'' = calls_m bp @ [DeallocatePage_call p] \<and>
             \<not> is_dirty_m (pages_m bp'' ! i) \<and>
             data_m (pages_m bp'' ! i) = replicate (length (data_m (pages_m bp ! i))) 0))"
proof (intro conjI impI)
  assume "DeletePgImp h bp p = Inr (bp', b)"
  then show "disk_m bp' = disk_m bp"
    by (auto simp: DeletePgImp_def DeallocatePage_def Let_def
        split: sum.splits option.splits if_splits)
next
  assume a: "bound_frame h bp p = Some i \<and> pin_count_m (pages_m bp ! i) \<le> 0 \<and>
    LRUKReplacer_Remove (replacer_m bp) (int i) = Inr r"
  then have f: "Find h (page_table_m bp) p = Inr (Some (int i))" and i: "i < length (pages_m bp)"
    by (auto dest: bound_frameD)
  from Find_Remove [OF f] obtain pt where "Remove h (page_table_m bp) p = Inr (True, pt)"
    by auto
  with a have "DeletePgImp h bp p =
     Inr (bp\<lparr>page_table_m := pt, replacer_m := r, free_list_m := free_list_m bp @ [int i],
             pages_m := (pages_m bp)[i :=
               \<lparr>data_m = replicate (length (data_m (pages_m bp ! i))) 0,
                page_id_m = INVALID_PAGE_ID, pin_count_m = 0, is_dirty_m = False\<rparr>],
             calls_m := calls_m bp @ [DeallocatePage_call p]\<rparr>, True)"
    by (simp add: DeletePgImp_unpinned)
  with i show "\<exists>bp''. DeletePgImp h bp p = Inr (bp'', True) \<and>
             disk_m bp'' = disk_m bp \<and>
             calls_m bp'' = calls_m bp @ [DeallocatePage_call p] \<and>
             \<not> is_dirty_m (pages_m bp'' ! i) \<and>
             data_m (pages_m bp'' ! i) = replicate (length (data_m (pages_m bp ! i))) 0"
    by simp
qed

theorem DeletePgImp_no_write_witness:
  "is_dirty_m (pages_m pool2 ! 0) \<and> data_m (pages_m pool2 ! 0) = [9, 9, 9, 9] \<and>
   disk_m pool2 5 = [5, 5, 5, 5] \<and>
   (\<exists>bp''. DeletePgImp std_hash_int pool2 5 = Inr (bp'', True) \<and>
          disk_m bp'' 5 = [5, 5, 5, 5] \<and>
          calls_m bp'' = [ReadPage_call 5, DeallocatePage_call 5] \<and>
          \<not> is_dirty_m (pages_m bp'' ! 0) \<and>
          data_m (pages_m bp'' ! 0) = [0, 0, 0, 0])"
proof -
  have h2: "bound_frame std_hash_int pool2 5 = Some 0 \<and> pin_count_m (pages_m pool2 ! 0) \<le> 0 \<and>
            LRUKReplacer_Remove (replacer_m pool2) (int 0) = Inr (replacer_m pool4)"
    by (simp add: pool2_def pool4_def eval_defs)
  have st: "is_dirty_m (pages_m pool2 ! 0) \<and> data_m (pages_m pool2 ! 0) = [9, 9, 9, 9] \<and>
     disk_m pool2 5 = [5, 5, 5, 5] \<and> calls_m pool2 = [ReadPage_call 5]"
    by (simp add: pool2_def disk0_def replicate_4)
  from DeletePgImp_no_write [of std_hash_int pool2 5 undefined undefined 0 "replacer_m pool4",
      THEN conjunct2] h2
  obtain bp'' where "DeletePgImp std_hash_int pool2 5 = Inr (bp'', True)"
    "disk_m bp'' = disk_m pool2" "calls_m bp'' = calls_m pool2 @ [DeallocatePage_call 5]"
    "\<not> is_dirty_m (pages_m bp'' ! 0)"
    "data_m (pages_m bp'' ! 0) = replicate (length (data_m (pages_m pool2 ! 0))) 0"
    by auto
  with st show ?thesis
    by (auto simp: replicate_4)
qed

lemma GetNewPage_page_id:
  "GetNewPage ins h bp p = Inr (bp1, q) \<Longrightarrow> p \<noteq> INVALID_PAGE_ID \<Longrightarrow> q = p \<or> q = INVALID_PAGE_ID"
  by (auto simp: GetNewPage_def Let_def split: sum.splits option.splits prod.splits if_splits)

lemma ReadPage_frame:
  "i < length (pages_m bp) \<Longrightarrow>
     length (pages_m (ReadPage bp p i)) = length (pages_m bp) \<and>
     data_m (pages_m (ReadPage bp p i) ! i) = disk_m (ReadPage bp p i) p \<and>
     disk_m (ReadPage bp p i) = disk_m bp \<and>
     calls_m (ReadPage bp p i) = calls_m bp @ [ReadPage_call p] \<and>
     pin_count_m (pages_m (ReadPage bp p i) ! i) = pin_count_m (pages_m bp ! i)"
  by (simp add: ReadPage_def)

lemma FetchPgImp_resident:
  assumes "bound_frame h bp p = Some i"
  shows "FetchPgImp ins h bp p = Inr (ReadPage bp p i, Some i)"
  using bound_frameD [OF assms] by (simp add: FetchPgImp_def)

text \<open>
  C2, amended: a \<open>FetchPage(p)\<close> on a resident page reads \<open>p\<close> from disk into its
  frame, whatever the frame held; and every \<open>FetchPage(p)\<close> with
  \<open>p \<noteq> INVALID_PAGE_ID\<close> that returns a frame ends with a \<open>ReadPage(p)\<close> into that
  frame, whose bytes are then the disk's image of \<open>p\<close>.
\<close>
theorem FetchPgImp_reads_page:
  "(bound_frame h bp p = Some i \<longrightarrow>
      FetchPgImp ins h bp p = Inr (ReadPage bp p i, Some i) \<and>
      data_m (pages_m (ReadPage bp p i) ! i) = disk_m bp p \<and>
      calls_m (ReadPage bp p i) = calls_m bp @ [ReadPage_call p]) \<and>
   (FetchPgImp ins h bp p = Inr (bp', Some j) \<and> p \<noteq> INVALID_PAGE_ID \<longrightarrow>
      j < length (pages_m bp') \<and> data_m (pages_m bp' ! j) = disk_m bp' p \<and>
      (\<exists>cs. calls_m bp' = cs @ [ReadPage_call p]))"
proof -
  have hit: "FetchPgImp ins h bp p = Inr (ReadPage bp p i, Some i) \<and>
      data_m (pages_m (ReadPage bp p i) ! i) = disk_m bp p \<and>
      calls_m (ReadPage bp p i) = calls_m bp @ [ReadPage_call p]"
    if b: "bound_frame h bp p = Some i"
    using FetchPgImp_resident [OF b] ReadPage_frame [of i bp p] bound_frameD [OF b] by simp
  have any: "j < length (pages_m bp') \<and> data_m (pages_m bp' ! j) = disk_m bp' p \<and>
      (\<exists>cs. calls_m bp' = cs @ [ReadPage_call p])"
    if a: "FetchPgImp ins h bp p = Inr (bp', Some j) \<and> p \<noteq> INVALID_PAGE_ID"
  proof -
    from a have ne: "p \<noteq> INVALID_PAGE_ID" and
      f: "FetchPgImp ins h bp p = Inr (bp', Some j)"
      by simp_all
    have "\<exists>bp1. bp' = ReadPage bp1 p j \<and> j < length (pages_m bp1)"
    proof (cases "Find h (page_table_m bp) p = Inr None")
      case True
      with f obtain bp1 q where g: "GetNewPage ins h bp p = Inr (bp1, q)"
        and q: "q \<noteq> INVALID_PAGE_ID"
        and r: "bp' = ReadPage bp1 q j \<and> j < length (pages_m bp1)"
        by (auto simp: FetchPgImp_def Let_def frame_at_def
            split: sum.splits option.splits if_splits)
      from GetNewPage_page_id [OF g ne] q have "q = p"
        by simp
      with r show ?thesis
        by blast
    next
      case False
      with f show ?thesis
        by (auto simp: FetchPgImp_def Let_def frame_at_def
            split: sum.splits option.splits if_splits)
    qed
    then obtain bp1 where r: "bp' = ReadPage bp1 p j" and j: "j < length (pages_m bp1)"
      by blast
    from ReadPage_frame [OF j, of p] r j show ?thesis
      by simp
  qed
  from hit any show ?thesis
    by blast
qed

theorem FetchPgImp_reads_page_witness:
  "FetchPgImp (Insert_1st std_hash_int) std_hash_int
      (pool1\<lparr>pages_m := (pages_m pool1)[0 := (pages_m pool1 ! 0)\<lparr>data_m := [9, 9, 9, 9]\<rparr>]\<rparr>) 5
     = Inr (pool1\<lparr>calls_m := [ReadPage_call 5, ReadPage_call 5]\<rparr>, Some 0) \<and>
   FetchPgImp (Insert_1st std_hash_int) std_hash_int pool0 5 = Inr (pool1, Some 0) \<and>
   data_m (pages_m pool1 ! 0) = disk_m pool1 5 \<and> calls_m pool1 = [] @ [ReadPage_call 5]"
proof -
  let ?bpB = "pool1\<lparr>pages_m := (pages_m pool1)[0 := (pages_m pool1 ! 0)\<lparr>data_m := [9, 9, 9, 9]\<rparr>]\<rparr>"
  have hB: "bound_frame std_hash_int ?bpB 5 = Some 0"
    by (simp add: pool1_def eval_defs)
  have f0: "FetchPgImp (Insert_1st std_hash_int) std_hash_int pool0 5 = Inr (pool1, Some 0)
      \<and> (5 :: int) \<noteq> INVALID_PAGE_ID"
    by (simp add: pool0_def pool1_def eval_defs InsertInternal.simps upt_2 replicate_4
        numeral_2_eq_2)
  show ?thesis
    using FetchPgImp_reads_page [of std_hash_int ?bpB 5 0 "Insert_1st std_hash_int" undefined undefined,
        THEN conjunct1] hB
      FetchPgImp_reads_page [of std_hash_int pool0 5 undefined "Insert_1st std_hash_int" pool1 0,
        THEN conjunct2] f0
    by (auto simp: pool1_def ReadPage_def disk0_def replicate_4)
qed

text \<open>
  C2 as stated fails at \<open>p = INVALID_PAGE_ID\<close>: on a fresh pool \<open>FetchPage(-1)\<close>
  allocates page 0, binds frame 0 to it and reads page 0, so the frame does not hold the
  disk's image of \<open>p\<close> and no read of \<open>p\<close> is made.
\<close>

theorem FetchPgImp_INVALID_counterexample:
  "FetchPgImp (Insert_1st std_hash_int) std_hash_int pool0 INVALID_PAGE_ID = Inr (pool3, Some 0) \<and>
   calls_m pool3 = [ReadPage_call 0] \<and>
   data_m (pages_m pool3 ! 0) = [0, 0, 0, 0] \<and>
   disk_m pool3 INVALID_PAGE_ID = [255, 255, 255, 255]"
  by (simp add: pool0_def pool3_def eval_defs InsertInternal.simps upt_2 replicate_4
      numeral_2_eq_2)

text \<open>
  A \<open>FetchPage\<close> of a resident page leaves the pin count of its frame and the replacer
  as they were.
\<close>

lemma FetchPgImp_resident_pin_count:
  assumes "bound_frame h bp p = Some i"
  shows "\<exists>bp'. FetchPgImp ins h bp p = Inr (bp', Some i) \<and>
           pin_count_m (pages_m bp' ! i) = pin_count_m (pages_m bp ! i) \<and>
           replacer_m bp' = replacer_m bp"
  using FetchPgImp_resident [OF assms, of ins] bound_frameD [OF assms]
  by (simp add: ReadPage_def)

text \<open>
  C1, evaluated: on a fresh pool of two frames, \<open>FetchPage(5)\<close> binds frame 0 with pin
  count 1, and a second \<open>FetchPage(5)\<close> returns frame 0 with pin count 1 again, not 2,
  with either listing of the page table's \<open>Insert\<close>.
\<close>

theorem FetchPgImp_twice_pin_count:
  "FetchPgImp (Insert_1st std_hash_int) std_hash_int pool0 5 = Inr (pool1, Some 0) \<and>
   FetchPgImp (Insert_2nd 2 std_hash_int) std_hash_int pool0 5 = Inr (pool1, Some 0) \<and>
   pin_count_m (pages_m pool1 ! 0) = 1 \<and>
   FetchPgImp (Insert_1st std_hash_int) std_hash_int pool1 5 =
     Inr (pool1\<lparr>calls_m := [ReadPage_call 5, ReadPage_call 5]\<rparr>, Some 0) \<and>
   FetchPgImp (Insert_2nd 2 std_hash_int) std_hash_int pool1 5 =
     Inr (pool1\<lparr>calls_m := [ReadPage_call 5, ReadPage_call 5]\<rparr>, Some 0) \<and>
   pin_count_m (pages_m (pool1\<lparr>calls_m := [ReadPage_call 5, ReadPage_call 5]\<rparr>) ! 0) = 1"
  by (simp add: pool0_def pool1_def eval_defs InsertInternal.simps upt_2 replicate_4
      numeral_2_eq_2)

section \<open>LRU-K replacer: properties\<close>

lemmas replacer_eval = RecordAccess_def SetEvictable_def RemoveInternal_def Evict_def
  frame_id_assertion_def int_cast_eval new_Node_def list_of_def assign_evictable_def
  new_LRUKReplacer_def
  victim_after_def spec_victim_def first_recorded_order_def tracked_def is_evictable_def

text \<open>
  C6, evaluated: with three frames the assertion of \<open>RecordAccess\<close> and
  \<open>SetEvictable\<close> passes for \<open>frame_id = 3\<close>, the pool size, and for
  \<open>frame_id = -1\<close>: \<open>RecordAccess\<close> starts tracking either frame. It fails from 4 on.
\<close>
theorem frame_id_assertion_at_pool_size:
  "frame_id_assertion (new_LRUKReplacer 3 2) 3 \<and>
   RecordAccess (new_LRUKReplacer 3 2) 3 =
     Inr ((new_LRUKReplacer 3 2)
           \<lparr>inf_list_m := [\<lparr>frame_id_m = 3, access_count_m = 1, evictable_m = False\<rparr>],
            hash_m := [3 \<mapsto> In_inf_list]\<rparr>) \<and>
   SetEvictable (new_LRUKReplacer 3 2) 3 True = Inr (new_LRUKReplacer 3 2) \<and>
   frame_id_assertion (new_LRUKReplacer 3 2) (- 1) \<and>
   RecordAccess (new_LRUKReplacer 3 2) (- 1) =
     Inr ((new_LRUKReplacer 3 2)
           \<lparr>inf_list_m := [\<lparr>frame_id_m = - 1, access_count_m = 1, evictable_m = False\<rparr>],
            hash_m := [- 1 \<mapsto> In_inf_list]\<rparr>) \<and>
   \<not> frame_id_assertion (new_LRUKReplacer 3 2) 4"
  by (simp add: replacer_eval)

text \<open>
  In general, for a replacer of fewer than \<open>2 ^ 31\<close> frames, where the cast is the
  identity, the assertion passes up to and including the pool size. From \<open>2 ^ 31\<close> frames
  on the cast wraps, and the bound of the assertion is no longer the pool size.
\<close>

lemma int_cast_wraps: "int_cast (2 ^ 31) = - (2 ^ 31) \<and> int_cast (2 ^ 32 + 5) = 5"
  by (simp add: int_cast_def)

lemma frame_id_assertion_bound:
  "replacer_size_m r < 2 ^ 31 \<Longrightarrow>
     frame_id_assertion r frame_id \<longleftrightarrow> frame_id < int (replacer_size_m r) + 1"
  by (auto simp: frame_id_assertion_def int_cast_small)

lemma RecordAccess_pool_size_passes:
  assumes "replacer_size_m r < 2 ^ 31"
  shows "RecordAccess r (int (replacer_size_m r)) \<noteq> Inl AssertionFailure"
    and "SetEvictable r (int (replacer_size_m r)) e \<noteq> Inl AssertionFailure"
  using assms
  by (auto simp: RecordAccess_def SetEvictable_def frame_id_assertion_def int_cast_small Let_def
      split: option.splits if_splits)

subsection \<open>Node lists\<close>

lemma node_of_SomeD: "node_of ns f = Some n \<Longrightarrow> n \<in> set ns \<and> frame_id_m n = f"
  by (induction ns) (auto split: if_splits)

lemma node_of_None: "node_of ns f = None \<longleftrightarrow> f \<notin> frame_id_m ` set ns"
  by (induction ns) auto

lemma node_of_member:
  "distinct (map frame_id_m ns) \<Longrightarrow> n \<in> set ns \<Longrightarrow> node_of ns (frame_id_m n) = Some n"
  by (induction ns) (auto simp: rev_image_eqI)

lemma set_erase: "set (erase ns f) \<subseteq> set ns"
  by (induction ns) auto

lemma erase_absent: "f \<notin> frame_id_m ` set ns \<Longrightarrow> erase ns f = ns"
  by (induction ns) auto

lemma ids_erase:
  "distinct (map frame_id_m ns) \<Longrightarrow> frame_id_m ` set (erase ns f) = frame_id_m ` set ns - {f}"
  by (induction ns) (auto simp: rev_image_eqI)

lemma distinct_erase:
  "distinct (map frame_id_m ns) \<Longrightarrow> distinct (map frame_id_m (erase ns f))"
proof (induction ns)
  case Nil
  then show ?case by simp
next
  case (Cons n ns)
  then show ?case
    using set_erase [of ns f] by auto
qed

lemma erase_middle:
  "distinct (map frame_id_m (before @ n # after)) \<Longrightarrow>
     erase (before @ n # after) (frame_id_m n) = before @ after"
  by (induction before) (auto simp: rev_image_eqI)

lemma map_id_set_evictable: "map frame_id_m (set_evictable ns f e) = map frame_id_m ns"
  by (induction ns) auto

lemma set_set_evictable:
  "m \<in> set (set_evictable ns f e) \<Longrightarrow>
     \<exists>n \<in> set ns. frame_id_m m = frame_id_m n \<and> access_count_m m = access_count_m n"
  by (induction ns) (auto split: if_splits)

lemma first_evictable_Some:
  "first_evictable ns = Some n \<longleftrightarrow>
     (\<exists>before after. ns = before @ n # after \<and> (\<forall>m \<in> set before. \<not> evictable_m m) \<and> evictable_m n)"
proof (induction ns)
  case Nil
  then show ?case by simp
next
  case (Cons a ns)
  show ?case
  proof (cases "evictable_m a")
    case True
    have "(\<exists>before after. a # ns = before @ n # after \<and> (\<forall>m \<in> set before. \<not> evictable_m m) \<and>
              evictable_m n) \<longleftrightarrow> a = n"
    proof
      assume "\<exists>before after. a # ns = before @ n # after \<and>
                (\<forall>m \<in> set before. \<not> evictable_m m) \<and> evictable_m n"
      then obtain before after where e: "a # ns = before @ n # after"
        and b: "\<forall>m \<in> set before. \<not> evictable_m m"
        by blast
      show "a = n"
      proof (cases before)
        case Nil
        with e show ?thesis by simp
      next
        case (Cons x xs)
        with e b True show ?thesis by auto
      qed
    next
      assume "a = n"
      with True have "a # ns = [] @ n # ns \<and> (\<forall>m \<in> set []. \<not> evictable_m m) \<and> evictable_m n"
        by simp
      then show "\<exists>before after. a # ns = before @ n # after \<and>
                (\<forall>m \<in> set before. \<not> evictable_m m) \<and> evictable_m n"
        by blast
    qed
    with True show ?thesis by auto
  next
    case False
    have "(\<exists>before after. a # ns = before @ n # after \<and> (\<forall>m \<in> set before. \<not> evictable_m m) \<and>
              evictable_m n) \<longleftrightarrow>
          (\<exists>before after. ns = before @ n # after \<and> (\<forall>m \<in> set before. \<not> evictable_m m) \<and>
              evictable_m n)"
    proof
      assume "\<exists>before after. a # ns = before @ n # after \<and>
                (\<forall>m \<in> set before. \<not> evictable_m m) \<and> evictable_m n"
      then obtain before after where e: "a # ns = before @ n # after"
        and b: "\<forall>m \<in> set before. \<not> evictable_m m" and n: "evictable_m n"
        by blast
      from e n False obtain xs where "before = a # xs"
        by (cases before) auto
      with e b n show "\<exists>before after. ns = before @ n # after \<and>
                (\<forall>m \<in> set before. \<not> evictable_m m) \<and> evictable_m n"
        by auto
    next
      assume "\<exists>before after. ns = before @ n # after \<and>
                (\<forall>m \<in> set before. \<not> evictable_m m) \<and> evictable_m n"
      then obtain before after where "ns = before @ n # after"
        "\<forall>m \<in> set before. \<not> evictable_m m" "evictable_m n"
        by blast
      with False have "a # ns = (a # before) @ n # after \<and>
          (\<forall>m \<in> set (a # before). \<not> evictable_m m) \<and> evictable_m n"
        by simp
      then show "\<exists>before after. a # ns = before @ n # after \<and>
                (\<forall>m \<in> set before. \<not> evictable_m m) \<and> evictable_m n"
        by blast
    qed
    with False Cons.IH show ?thesis by simp
  qed
qed

lemma first_evictable_None: "first_evictable ns = None \<longleftrightarrow> (\<forall>m \<in> set ns. \<not> evictable_m m)"
  by (induction ns) auto

subsection \<open>The invariant of the replacer\<close>

lemma replacer_inv_new: "replacer_inv (new_LRUKReplacer num_frames k)"
  by (simp add: replacer_inv_def new_LRUKReplacer_def)

lemma inv_inf_node:
  assumes "replacer_inv r" and "hash_m r f = Some In_inf_list"
  shows "\<exists>n. node_of (inf_list_m r) f = Some n \<and> n \<in> set (inf_list_m r) \<and> frame_id_m n = f \<and>
             access_count_m n < k_m r \<and> f \<notin> frame_id_m ` set (countable_list_m r)"
proof -
  from assms have "f \<in> frame_id_m ` set (inf_list_m r @ countable_list_m r)"
    unfolding replacer_inv_def by (metis domI)
  moreover from assms have c: "f \<notin> frame_id_m ` set (countable_list_m r)"
    unfolding replacer_inv_def by force
  ultimately have "f \<in> frame_id_m ` set (inf_list_m r)"
    by auto
  then obtain n where n: "node_of (inf_list_m r) f = Some n"
    using node_of_None [of "inf_list_m r" f] by (cases "node_of (inf_list_m r) f") auto
  with node_of_SomeD [OF n] assms(1) c show ?thesis
    unfolding replacer_inv_def by auto
qed

lemma inv_countable_node:
  assumes "replacer_inv r" and "hash_m r f = Some In_countable_list"
  shows "\<exists>n. node_of (countable_list_m r) f = Some n \<and> n \<in> set (countable_list_m r) \<and>
             frame_id_m n = f \<and> k_m r \<le> access_count_m n \<and> f \<notin> frame_id_m ` set (inf_list_m r)"
proof -
  from assms have "f \<in> frame_id_m ` set (inf_list_m r @ countable_list_m r)"
    unfolding replacer_inv_def by (metis domI)
  moreover from assms have c: "f \<notin> frame_id_m ` set (inf_list_m r)"
    unfolding replacer_inv_def by force
  ultimately have "f \<in> frame_id_m ` set (countable_list_m r)"
    by auto
  then obtain n where n: "node_of (countable_list_m r) f = Some n"
    using node_of_None [of "countable_list_m r" f] by (cases "node_of (countable_list_m r) f") auto
  with node_of_SomeD [OF n] assms(1) c show ?thesis
    unfolding replacer_inv_def by auto
qed

lemma inv_untracked:
  assumes "replacer_inv r" and "hash_m r f = None"
  shows "f \<notin> frame_id_m ` set (inf_list_m r) \<and> f \<notin> frame_id_m ` set (countable_list_m r)"
proof -
  from assms have "f \<notin> frame_id_m ` set (inf_list_m r @ countable_list_m r)"
    unfolding replacer_inv_def by (metis domIff)
  then show ?thesis by auto
qed

lemma replacer_inv_alt:
  "replacer_inv r \<longleftrightarrow>
     distinct (map frame_id_m (inf_list_m r)) \<and> distinct (map frame_id_m (countable_list_m r)) \<and>
     frame_id_m ` set (inf_list_m r) \<inter> frame_id_m ` set (countable_list_m r) = {} \<and>
     (\<forall>n \<in> set (inf_list_m r).
        hash_m r (frame_id_m n) = Some In_inf_list \<and> access_count_m n < k_m r) \<and>
     (\<forall>n \<in> set (countable_list_m r).
        hash_m r (frame_id_m n) = Some In_countable_list \<and> k_m r \<le> access_count_m n) \<and>
     dom (hash_m r) = frame_id_m ` set (inf_list_m r) \<union> frame_id_m ` set (countable_list_m r)"
  unfolding replacer_inv_def by (auto simp: image_Un)

lemma replacer_invD:
  assumes "replacer_inv r"
  shows "distinct (map frame_id_m (inf_list_m r))" and "distinct (map frame_id_m (countable_list_m r))"
    and "frame_id_m ` set (inf_list_m r) \<inter> frame_id_m ` set (countable_list_m r) = {}"
    and "\<And>n. n \<in> set (inf_list_m r) \<Longrightarrow>
            hash_m r (frame_id_m n) = Some In_inf_list \<and> access_count_m n < k_m r"
    and "\<And>n. n \<in> set (countable_list_m r) \<Longrightarrow>
            hash_m r (frame_id_m n) = Some In_countable_list \<and> k_m r \<le> access_count_m n"
    and "dom (hash_m r) = frame_id_m ` set (inf_list_m r) \<union> frame_id_m ` set (countable_list_m r)"
  using assms unfolding replacer_inv_def by (auto simp: image_Un)

lemma erase_nodes: "n \<in> set (erase ns f) \<Longrightarrow> n \<in> set ns"
  using set_erase by blast

lemma RecordAccess_untracked:
  assumes inv: "replacer_inv r" and k: "1 \<le> k_m r" and ok: "frame_id_assertion r f"
    and h: "hash_m r f = None"
  shows "\<exists>r' n. RecordAccess r f = Inr r' \<and> replacer_inv r' \<and> frame_id_m n = f \<and>
     access_count_m n = 1 \<and> k_m r' = k_m r \<and>
     ((access_count_m n < k_m r \<and> inf_list_m r' = erase (inf_list_m r) f @ [n] \<and>
       countable_list_m r' = countable_list_m r) \<or>
      (k_m r \<le> access_count_m n \<and> inf_list_m r' = erase (inf_list_m r) f \<and>
       countable_list_m r' = erase (countable_list_m r) f @ [n]))"
proof -
  note d = replacer_invD [OF inv]
  from inv_untracked [OF inv h]
  have fresh: "f \<notin> frame_id_m ` set (inf_list_m r)" "f \<notin> frame_id_m ` set (countable_list_m r)"
    by simp_all
  show ?thesis
  proof (cases "k_m r = 1")
    case True
    let ?r = "r\<lparr>countable_list_m := countable_list_m r @ [new_Node f],
                hash_m := (hash_m r)(f \<mapsto> In_countable_list)\<rparr>"
    have 1: "RecordAccess r f = Inr ?r"
      using ok h True by (simp add: RecordAccess_def)
    have 2: "replacer_inv ?r"
      unfolding replacer_inv_alt using d fresh True
      by (auto simp: new_Node_def rev_image_eqI)
    from 1 2 fresh True show ?thesis
      by (intro exI [of _ ?r] exI [of _ "new_Node f"]) (simp add: new_Node_def erase_absent)
  next
    case False
    let ?r = "r\<lparr>inf_list_m := inf_list_m r @ [new_Node f],
                hash_m := (hash_m r)(f \<mapsto> In_inf_list)\<rparr>"
    have 1: "RecordAccess r f = Inr ?r"
      using ok h False by (simp add: RecordAccess_def)
    have 2: "replacer_inv ?r"
      unfolding replacer_inv_alt using d fresh False k
      by (auto simp: new_Node_def rev_image_eqI)
    from 1 2 fresh False k show ?thesis
      by (intro exI [of _ ?r] exI [of _ "new_Node f"]) (simp add: new_Node_def erase_absent)
  qed
qed

lemma RecordAccess_in_inf:
  assumes inv: "replacer_inv r" and ok: "frame_id_assertion r f"
    and h: "hash_m r f = Some In_inf_list"
  shows "\<exists>r' n. RecordAccess r f = Inr r' \<and> replacer_inv r' \<and> frame_id_m n = f \<and>
     k_m r' = k_m r \<and>
     ((access_count_m n < k_m r \<and> inf_list_m r' = erase (inf_list_m r) f @ [n] \<and>
       countable_list_m r' = countable_list_m r) \<or>
      (k_m r \<le> access_count_m n \<and> inf_list_m r' = erase (inf_list_m r) f \<and>
       countable_list_m r' = erase (countable_list_m r) f @ [n]))"
proof -
  note d = replacer_invD [OF inv]
  from inv_inf_node [OF inv h] obtain n0 where n0: "node_of (inf_list_m r) f = Some n0"
    "n0 \<in> set (inf_list_m r)" "frame_id_m n0 = f" "access_count_m n0 < k_m r"
    "f \<notin> frame_id_m ` set (countable_list_m r)"
    by blast
  let ?n = "\<lparr>frame_id_m = f, access_count_m = access_count_m n0 + 1, evictable_m = evictable_m n0\<rparr>"
  have ids: "frame_id_m ` set (erase (inf_list_m r) f) = frame_id_m ` set (inf_list_m r) - {f}"
    using d(1) by (rule ids_erase)
  have dist: "distinct (map frame_id_m (erase (inf_list_m r) f))"
    using d(1) by (rule distinct_erase)
  have f_in: "f \<in> frame_id_m ` set (inf_list_m r)"
    using n0 by force
  show ?thesis
  proof (cases "access_count_m n0 + 1 < k_m r")
    case True
    let ?r = "r\<lparr>inf_list_m := erase (inf_list_m r) f @ [?n],
                hash_m := (hash_m r)(f \<mapsto> In_inf_list)\<rparr>"
    have 1: "RecordAccess r f = Inr ?r"
      using ok h n0 True by (simp add: RecordAccess_def list_of_def Let_def)
    have 2: "replacer_inv ?r"
      unfolding replacer_inv_alt using d ids dist True n0 f_in
      by (auto dest: erase_nodes)
    from 1 2 True show ?thesis
      by (intro exI [of _ ?r] exI [of _ ?n]) simp
  next
    case False
    with n0 have eq: "access_count_m n0 + 1 = k_m r"
      by simp
    let ?r = "r\<lparr>inf_list_m := erase (inf_list_m r) f,
                countable_list_m := countable_list_m r @ [?n],
                hash_m := (hash_m r)(f \<mapsto> In_countable_list)\<rparr>"
    have 1: "RecordAccess r f = Inr ?r"
      using ok h n0 eq by (simp add: RecordAccess_def list_of_def Let_def)
    have 2: "replacer_inv ?r"
      unfolding replacer_inv_alt using d ids dist eq n0 f_in
      by (auto dest: erase_nodes)
    from 1 2 eq n0 show ?thesis
      by (intro exI [of _ ?r] exI [of _ ?n]) (simp add: erase_absent)
  qed
qed

lemma RecordAccess_in_countable:
  assumes inv: "replacer_inv r" and ok: "frame_id_assertion r f"
    and h: "hash_m r f = Some In_countable_list"
  shows "\<exists>r' n. RecordAccess r f = Inr r' \<and> replacer_inv r' \<and> frame_id_m n = f \<and>
     k_m r' = k_m r \<and>
     ((access_count_m n < k_m r \<and> inf_list_m r' = erase (inf_list_m r) f @ [n] \<and>
       countable_list_m r' = countable_list_m r) \<or>
      (k_m r \<le> access_count_m n \<and> inf_list_m r' = erase (inf_list_m r) f \<and>
       countable_list_m r' = erase (countable_list_m r) f @ [n]))"
proof -
  note d = replacer_invD [OF inv]
  from inv_countable_node [OF inv h] obtain n0 where n0: "node_of (countable_list_m r) f = Some n0"
    "n0 \<in> set (countable_list_m r)" "frame_id_m n0 = f" "k_m r \<le> access_count_m n0"
    "f \<notin> frame_id_m ` set (inf_list_m r)"
    by blast
  let ?n = "\<lparr>frame_id_m = f, access_count_m = access_count_m n0 + 1, evictable_m = evictable_m n0\<rparr>"
  have ids: "frame_id_m ` set (erase (countable_list_m r) f) =
      frame_id_m ` set (countable_list_m r) - {f}"
    using d(2) by (rule ids_erase)
  have dist: "distinct (map frame_id_m (erase (countable_list_m r) f))"
    using d(2) by (rule distinct_erase)
  have f_in: "f \<in> frame_id_m ` set (countable_list_m r)"
    using n0 by force
  let ?r = "r\<lparr>countable_list_m := erase (countable_list_m r) f @ [?n],
              hash_m := (hash_m r)(f \<mapsto> In_countable_list)\<rparr>"
  have 1: "RecordAccess r f = Inr ?r"
    using ok h n0 by (simp add: RecordAccess_def list_of_def Let_def)
  have sub: "\<And>m. m \<in> set (erase (countable_list_m r) f) \<Longrightarrow>
      m \<in> set (countable_list_m r) \<and> frame_id_m m \<noteq> f"
    using ids erase_nodes by blast
  have 2: "replacer_inv ?r"
  proof (unfold replacer_inv_alt, intro conjI ballI)
    show "distinct (map frame_id_m (inf_list_m ?r))"
      using d(1) by simp
    show "distinct (map frame_id_m (countable_list_m ?r))"
      using dist ids by simp
    show "frame_id_m ` set (inf_list_m ?r) \<inter> frame_id_m ` set (countable_list_m ?r) = {}"
      using d(3) ids n0(5) by auto
    show "hash_m ?r (frame_id_m m) = Some In_inf_list" if "m \<in> set (inf_list_m ?r)" for m
      using that d(4) [of m] n0(5) by auto
    show "access_count_m m < k_m ?r" if "m \<in> set (inf_list_m ?r)" for m
      using that d(4) [of m] by simp
    show "hash_m ?r (frame_id_m m) = Some In_countable_list"
      if "m \<in> set (countable_list_m ?r)" for m
      using that sub [of m] d(5) [of m] by auto
    show "k_m ?r \<le> access_count_m m" if "m \<in> set (countable_list_m ?r)" for m
      using that sub [of m] d(5) [of m] n0(4) by auto
    show "dom (hash_m ?r) =
        frame_id_m ` set (inf_list_m ?r) \<union> frame_id_m ` set (countable_list_m ?r)"
      using d(6) ids f_in by auto
  qed
  from 1 2 n0 show ?thesis
    by (intro exI [of _ ?r] exI [of _ ?n]) (simp add: erase_absent)
qed

lemma RecordAccess_moves_to_back:
  assumes inv: "replacer_inv r" and k: "1 \<le> k_m r" and ok: "frame_id_assertion r f"
  shows "\<exists>r' n. RecordAccess r f = Inr r' \<and> replacer_inv r' \<and> frame_id_m n = f \<and>
     k_m r' = k_m r \<and>
     ((access_count_m n < k_m r \<and> inf_list_m r' = erase (inf_list_m r) f @ [n] \<and>
       countable_list_m r' = countable_list_m r) \<or>
      (k_m r \<le> access_count_m n \<and> inf_list_m r' = erase (inf_list_m r) f \<and>
       countable_list_m r' = erase (countable_list_m r) f @ [n]))"
proof (cases "hash_m r f")
  case None
  from RecordAccess_untracked [OF inv k ok None] show ?thesis
    by blast
next
  case (Some it)
  then show ?thesis
    using RecordAccess_in_inf [OF inv ok] RecordAccess_in_countable [OF inv ok]
    by (cases it) simp_all
qed

lemma RemoveInternal_inf_node:
  assumes inv: "replacer_inv r" and n: "n \<in> set (inf_list_m r)" and e: "evictable_m n"
  shows "RemoveInternal r (frame_id_m n) =
     Inr (r\<lparr>inf_list_m := erase (inf_list_m r) (frame_id_m n),
            hash_m := (hash_m r)(frame_id_m n := None),
            curr_size_m := curr_size_m r - 1\<rparr>) \<and> access_count_m n < k_m r"
proof -
  note d = replacer_invD [OF inv]
  from node_of_member [OF d(1) n] d(4) [OF n] e show ?thesis
    by (simp add: RemoveInternal_def list_of_def)
qed

lemma RemoveInternal_countable_node:
  assumes inv: "replacer_inv r" and n: "n \<in> set (countable_list_m r)" and e: "evictable_m n"
  shows "RemoveInternal r (frame_id_m n) =
     Inr (r\<lparr>countable_list_m := erase (countable_list_m r) (frame_id_m n),
            hash_m := (hash_m r)(frame_id_m n := None),
            curr_size_m := curr_size_m r - 1\<rparr>) \<and> k_m r \<le> access_count_m n"
proof -
  note d = replacer_invD [OF inv]
  from node_of_member [OF d(2) n] d(5) [OF n] e show ?thesis
    by (simp add: RemoveInternal_def list_of_def)
qed

lemma Evict_history:
  assumes inv: "replacer_inv r"
    and split: "inf_list_m r = before @ n # after"
    and before: "\<forall>m \<in> set before. \<not> evictable_m m" and e: "evictable_m n"
  shows "Evict r =
     Inr (r\<lparr>inf_list_m := before @ after, hash_m := (hash_m r)(frame_id_m n := None),
            curr_size_m := curr_size_m r - 1\<rparr>, Some (frame_id_m n)) \<and>
     access_count_m n < k_m r"
proof -
  have f: "first_evictable (inf_list_m r) = Some n"
    unfolding first_evictable_Some using split before e by blast
  have n: "n \<in> set (inf_list_m r)"
    using split by simp
  have "distinct (map frame_id_m (before @ n # after))"
    using replacer_invD(1) [OF inv] split by simp
  then have "erase (inf_list_m r) (frame_id_m n) = before @ after"
    using split erase_middle by simp
  with RemoveInternal_inf_node [OF inv n e] f show ?thesis
    by (simp add: Evict_def)
qed

lemma Evict_cache:
  assumes inv: "replacer_inv r"
    and none: "\<forall>m \<in> set (inf_list_m r). \<not> evictable_m m"
    and split: "countable_list_m r = before @ n # after"
    and before: "\<forall>m \<in> set before. \<not> evictable_m m" and e: "evictable_m n"
  shows "Evict r =
     Inr (r\<lparr>countable_list_m := before @ after, hash_m := (hash_m r)(frame_id_m n := None),
            curr_size_m := curr_size_m r - 1\<rparr>, Some (frame_id_m n)) \<and>
     k_m r \<le> access_count_m n"
proof -
  have f0: "first_evictable (inf_list_m r) = None"
    unfolding first_evictable_None using none .
  have f: "first_evictable (countable_list_m r) = Some n"
    unfolding first_evictable_Some using split before e by blast
  have n: "n \<in> set (countable_list_m r)"
    using split by simp
  have "distinct (map frame_id_m (before @ n # after))"
    using replacer_invD(2) [OF inv] split by simp
  then have "erase (countable_list_m r) (frame_id_m n) = before @ after"
    using split erase_middle by simp
  with RemoveInternal_countable_node [OF inv n e] f f0 show ?thesis
    by (simp add: Evict_def)
qed

lemma is_evictable_node:
  assumes inv: "replacer_inv r"
  shows "is_evictable r f \<longleftrightarrow>
     (\<exists>n \<in> set (inf_list_m r) \<union> set (countable_list_m r). frame_id_m n = f \<and> evictable_m n)"
proof (cases "hash_m r f")
  case None
  with inv_untracked [OF inv None] show ?thesis
    by (auto simp: is_evictable_def)
next
  case (Some it)
  note d = replacer_invD [OF inv]
  show ?thesis
  proof (cases it)
    case In_inf_list
    with Some inv_inf_node [OF inv] obtain n where n: "node_of (inf_list_m r) f = Some n"
      "n \<in> set (inf_list_m r)" "frame_id_m n = f" "f \<notin> frame_id_m ` set (countable_list_m r)"
      by blast
    have uniq: "m = n" if "m \<in> set (inf_list_m r)" "frame_id_m m = f" for m
      using node_of_member [OF d(1) that(1)] that(2) n(1) by simp
    have lhs: "is_evictable r f = evictable_m n"
      using n(1) Some In_inf_list by (simp add: is_evictable_def list_of_def)
    have "(\<exists>m \<in> set (inf_list_m r) \<union> set (countable_list_m r).
             frame_id_m m = f \<and> evictable_m m) = evictable_m n"
    proof
      assume "\<exists>m \<in> set (inf_list_m r) \<union> set (countable_list_m r).
             frame_id_m m = f \<and> evictable_m m"
      then obtain m where m: "m \<in> set (inf_list_m r) \<union> set (countable_list_m r)"
        "frame_id_m m = f" "evictable_m m"
        by blast
      with n(4) have "m \<in> set (inf_list_m r)"
        by force
      with uniq m show "evictable_m n"
        by blast
    next
      assume "evictable_m n"
      with n(2,3) show "\<exists>m \<in> set (inf_list_m r) \<union> set (countable_list_m r).
             frame_id_m m = f \<and> evictable_m m"
        by blast
    qed
    with lhs show ?thesis
      by simp
  next
    case In_countable_list
    with Some inv_countable_node [OF inv] obtain n where n: "node_of (countable_list_m r) f = Some n"
      "n \<in> set (countable_list_m r)" "frame_id_m n = f" "f \<notin> frame_id_m ` set (inf_list_m r)"
      by blast
    have uniq: "m = n" if "m \<in> set (countable_list_m r)" "frame_id_m m = f" for m
      using node_of_member [OF d(2) that(1)] that(2) n(1) by simp
    have lhs: "is_evictable r f = evictable_m n"
      using n(1) Some In_countable_list by (simp add: is_evictable_def list_of_def)
    have "(\<exists>m \<in> set (inf_list_m r) \<union> set (countable_list_m r).
             frame_id_m m = f \<and> evictable_m m) = evictable_m n"
    proof
      assume "\<exists>m \<in> set (inf_list_m r) \<union> set (countable_list_m r).
             frame_id_m m = f \<and> evictable_m m"
      then obtain m where m: "m \<in> set (inf_list_m r) \<union> set (countable_list_m r)"
        "frame_id_m m = f" "evictable_m m"
        by blast
      with n(4) have "m \<in> set (countable_list_m r)"
        by force
      with uniq m show "evictable_m n"
        by blast
    next
      assume "evictable_m n"
      with n(2,3) show "\<exists>m \<in> set (inf_list_m r) \<union> set (countable_list_m r).
             frame_id_m m = f \<and> evictable_m m"
        by blast
    qed
    with lhs show ?thesis
      by simp
  qed
qed

lemma tracked_node:
  assumes inv: "replacer_inv r"
  shows "tracked r f \<longleftrightarrow> f \<in> frame_id_m ` (set (inf_list_m r) \<union> set (countable_list_m r))"
  using replacer_invD(6) [OF inv] by (auto simp: tracked_def dom_def image_Un)

lemma Evict_false:
  assumes inv: "replacer_inv r"
  shows "(\<exists>r'. Evict r = Inr (r', None)) \<longleftrightarrow> (\<forall>f. tracked r f \<longrightarrow> \<not> is_evictable r f)"
proof -
  have ev: "(\<forall>f. tracked r f \<longrightarrow> \<not> is_evictable r f) \<longleftrightarrow>
      (\<forall>m \<in> set (inf_list_m r). \<not> evictable_m m) \<and> (\<forall>m \<in> set (countable_list_m r). \<not> evictable_m m)"
    unfolding is_evictable_node [OF inv] tracked_node [OF inv] by blast
  show ?thesis
  proof (cases "first_evictable (inf_list_m r)")
    case (Some n)
    then have n: "n \<in> set (inf_list_m r)" "evictable_m n"
      unfolding first_evictable_Some by auto
    from RemoveInternal_inf_node [OF inv n] Some have "\<exists>r'. Evict r = Inr (r', Some (frame_id_m n))"
      by (simp add: Evict_def)
    with n ev show ?thesis
      by auto
  next
    case None
    note none = this
    show ?thesis
    proof (cases "first_evictable (countable_list_m r)")
      case (Some n)
      then have n: "n \<in> set (countable_list_m r)" "evictable_m n"
        unfolding first_evictable_Some by auto
      from RemoveInternal_countable_node [OF inv n] Some none
      have "\<exists>r'. Evict r = Inr (r', Some (frame_id_m n))"
        by (simp add: Evict_def)
      with n ev show ?thesis
        by auto
    next
      case None
      with none have "Evict r = Inr (r, None)"
        by (simp add: Evict_def)
      moreover from None none have "(\<forall>m \<in> set (inf_list_m r). \<not> evictable_m m) \<and>
          (\<forall>m \<in> set (countable_list_m r). \<not> evictable_m m)"
        by (simp add: first_evictable_None)
      ultimately show ?thesis
        using ev by auto
    qed
  qed
qed

lemma SetEvictable_inv:
  assumes inv: "replacer_inv r" and res: "SetEvictable r f e = Inr r'"
  shows "replacer_inv r'"
proof -
  have keep: "replacer_inv (assign_evictable r it f e\<lparr>curr_size_m := c\<rparr>)" for it c
  proof (cases it)
    case In_inf_list
    have "frame_id_m ` set (set_evictable (inf_list_m r) f e) = frame_id_m ` set (inf_list_m r)"
      using map_id_set_evictable [of "inf_list_m r" f e] by (metis set_map)
    with inv In_inf_list show ?thesis
      unfolding replacer_inv_alt
      by (auto simp: assign_evictable_def map_id_set_evictable dest!: set_set_evictable)
  next
    case In_countable_list
    have "frame_id_m ` set (set_evictable (countable_list_m r) f e) =
        frame_id_m ` set (countable_list_m r)"
      using map_id_set_evictable [of "countable_list_m r" f e] by (metis set_map)
    with inv In_countable_list show ?thesis
      unfolding replacer_inv_alt
      by (auto simp: assign_evictable_def map_id_set_evictable dest!: set_set_evictable)
  qed
  from res inv keep show ?thesis
    by (auto simp: SetEvictable_def split: if_splits option.splits)
qed

lemma RemoveInternal_inv:
  assumes inv: "replacer_inv r" and res: "RemoveInternal r f = Inr r'"
  shows "replacer_inv r'"
proof (cases "hash_m r f")
  case None
  with res inv show ?thesis
    by (simp add: RemoveInternal_def)
next
  case (Some it)
  note d = replacer_invD [OF inv]
  show ?thesis
  proof (cases it)
    case In_inf_list
    from inv_inf_node [OF inv] Some In_inf_list obtain n where n: "node_of (inf_list_m r) f = Some n"
      "frame_id_m n = f" "access_count_m n < k_m r" "f \<notin> frame_id_m ` set (countable_list_m r)"
      by blast
    let ?r = "r\<lparr>inf_list_m := erase (inf_list_m r) f, hash_m := (hash_m r)(f := None),
                curr_size_m := curr_size_m r - 1\<rparr>"
    from res Some In_inf_list n have r': "r' = ?r"
      by (auto simp: RemoveInternal_def list_of_def split: if_splits)
    have ids: "frame_id_m ` set (erase (inf_list_m r) f) = frame_id_m ` set (inf_list_m r) - {f}"
      using d(1) by (rule ids_erase)
    have sub: "\<And>m. m \<in> set (erase (inf_list_m r) f) \<Longrightarrow>
        m \<in> set (inf_list_m r) \<and> frame_id_m m \<noteq> f"
      using ids erase_nodes by blast
    have "replacer_inv ?r"
    proof (unfold replacer_inv_alt, intro conjI ballI)
      show "distinct (map frame_id_m (inf_list_m ?r))"
        using distinct_erase [OF d(1)] by simp
      show "distinct (map frame_id_m (countable_list_m ?r))"
        using d(2) by simp
      show "frame_id_m ` set (inf_list_m ?r) \<inter> frame_id_m ` set (countable_list_m ?r) = {}"
        using d(3) ids by auto
      show "hash_m ?r (frame_id_m m) = Some In_inf_list" if "m \<in> set (inf_list_m ?r)" for m
        using that sub [of m] d(4) [of m] by auto
      show "access_count_m m < k_m ?r" if "m \<in> set (inf_list_m ?r)" for m
        using that sub [of m] d(4) [of m] by auto
      show "hash_m ?r (frame_id_m m) = Some In_countable_list"
        if "m \<in> set (countable_list_m ?r)" for m
        using that d(5) [of m] n(4) by auto
      show "k_m ?r \<le> access_count_m m" if "m \<in> set (countable_list_m ?r)" for m
        using that d(5) [of m] by simp
      show "dom (hash_m ?r) =
          frame_id_m ` set (inf_list_m ?r) \<union> frame_id_m ` set (countable_list_m ?r)"
        using d(6) ids n(4) by auto
    qed
    with r' show ?thesis
      by simp
  next
    case In_countable_list
    from inv_countable_node [OF inv] Some In_countable_list
    obtain n where n: "node_of (countable_list_m r) f = Some n"
      "frame_id_m n = f" "k_m r \<le> access_count_m n" "f \<notin> frame_id_m ` set (inf_list_m r)"
      by blast
    let ?r = "r\<lparr>countable_list_m := erase (countable_list_m r) f,
                hash_m := (hash_m r)(f := None), curr_size_m := curr_size_m r - 1\<rparr>"
    from res Some In_countable_list n have r': "r' = ?r"
      by (auto simp: RemoveInternal_def list_of_def split: if_splits)
    have ids: "frame_id_m ` set (erase (countable_list_m r) f) =
        frame_id_m ` set (countable_list_m r) - {f}"
      using d(2) by (rule ids_erase)
    have sub: "\<And>m. m \<in> set (erase (countable_list_m r) f) \<Longrightarrow>
        m \<in> set (countable_list_m r) \<and> frame_id_m m \<noteq> f"
      using ids erase_nodes by blast
    have "replacer_inv ?r"
    proof (unfold replacer_inv_alt, intro conjI ballI)
      show "distinct (map frame_id_m (inf_list_m ?r))"
        using d(1) by simp
      show "distinct (map frame_id_m (countable_list_m ?r))"
        using distinct_erase [OF d(2)] by simp
      show "frame_id_m ` set (inf_list_m ?r) \<inter> frame_id_m ` set (countable_list_m ?r) = {}"
        using d(3) ids by auto
      show "hash_m ?r (frame_id_m m) = Some In_inf_list" if "m \<in> set (inf_list_m ?r)" for m
        using that d(4) [of m] n(4) by auto
      show "access_count_m m < k_m ?r" if "m \<in> set (inf_list_m ?r)" for m
        using that d(4) [of m] by simp
      show "hash_m ?r (frame_id_m m) = Some In_countable_list"
        if "m \<in> set (countable_list_m ?r)" for m
        using that sub [of m] d(5) [of m] by auto
      show "k_m ?r \<le> access_count_m m" if "m \<in> set (countable_list_m ?r)" for m
        using that sub [of m] d(5) [of m] by auto
      show "dom (hash_m ?r) =
          frame_id_m ` set (inf_list_m ?r) \<union> frame_id_m ` set (countable_list_m ?r)"
        using d(6) ids n(4) by auto
    qed
    with r' show ?thesis
      by simp
  qed
qed

lemma Evict_inv:
  assumes inv: "replacer_inv r" and res: "Evict r = Inr (r', victim)"
  shows "replacer_inv r'"
  using res inv RemoveInternal_inv [OF inv]
  by (auto simp: Evict_def split: option.splits sum.splits)

text \<open>
  The example states are reached by the operations: \<open>replacer_A\<close> by the accesses 1, 2, 1
  with \<open>k = 3\<close>, \<open>replacer_B\<close> by the accesses 1, 1, 2, 2, 1, 3 with \<open>k = 2\<close>, and
  \<open>SetEvictable\<close> on frames 1 and 2.
\<close>

lemma replacer_examples_reached:
  "RecordAccess_all (new_LRUKReplacer 4 3) [1, 2, 1] = Inr r \<Longrightarrow>
     SetEvictable_all r [1, 2] = Inr replacer_A"
  "RecordAccess_all (new_LRUKReplacer 4 2) [1, 1, 2, 2, 1, 3] = Inr r' \<Longrightarrow>
     SetEvictable_all r' [1, 2] = Inr replacer_B"
  by (auto simp: replacer_eval replacer_A_def replacer_B_def)

text \<open>
  C5, amended: in a state of the replacer that satisfies its invariant, \<open>Evict\<close>
  returns the first evictable node of \<open>inf_list_\<close> (History, the frames with fewer
  than \<open>k\<close> accesses); only if that list has no evictable node, the first evictable node
  of \<open>countable_list_\<close> (Cache); and it returns false exactly when no tracked frame is
  evictable. The order of each list is that of the latest access: \<open>RecordAccess\<close> takes
  the frame's node out of its list and puts it at the back of the list its new count
  belongs to.
\<close>
theorem Evict_order:
  assumes "replacer_inv r"
  shows
    "(inf_list_m r = before @ n # after \<and> (\<forall>m \<in> set before. \<not> evictable_m m) \<and> evictable_m n
        \<longrightarrow>
      Evict r =
        Inr (r\<lparr>inf_list_m := before @ after, hash_m := (hash_m r)(frame_id_m n := None),
               curr_size_m := curr_size_m r - 1\<rparr>, Some (frame_id_m n)) \<and>
      access_count_m n < k_m r) \<and>
     ((\<forall>m \<in> set (inf_list_m r). \<not> evictable_m m) \<and> countable_list_m r = before @ n # after \<and>
      (\<forall>m \<in> set before. \<not> evictable_m m) \<and> evictable_m n
        \<longrightarrow>
      Evict r =
        Inr (r\<lparr>countable_list_m := before @ after, hash_m := (hash_m r)(frame_id_m n := None),
               curr_size_m := curr_size_m r - 1\<rparr>, Some (frame_id_m n)) \<and>
      k_m r \<le> access_count_m n) \<and>
     ((\<exists>r'. Evict r = Inr (r', None)) \<longleftrightarrow> (\<forall>f. tracked r f \<longrightarrow> \<not> is_evictable r f)) \<and>
     (1 \<le> k_m r \<and> frame_id_assertion r f \<longrightarrow>
        (\<exists>r' moved. RecordAccess r f = Inr r' \<and> replacer_inv r' \<and> frame_id_m moved = f \<and>
           k_m r' = k_m r \<and>
           ((access_count_m moved < k_m r \<and>
             inf_list_m r' = erase (inf_list_m r) f @ [moved] \<and>
             countable_list_m r' = countable_list_m r) \<or>
            (k_m r \<le> access_count_m moved \<and>
             inf_list_m r' = erase (inf_list_m r) f \<and>
             countable_list_m r' = erase (countable_list_m r) f @ [moved]))))"
  using Evict_history [OF assms, of before n after] Evict_cache [OF assms, of before n after]
    Evict_false [OF assms] RecordAccess_moves_to_back [OF assms, of f]
  by blast

theorem Evict_order_witness:
  "replacer_inv replacer_A \<and> replacer_inv replacer_B \<and>
   replacer_inv (new_LRUKReplacer 4 3) \<and>
   Evict replacer_A =
     Inr (replacer_A\<lparr>inf_list_m := [\<lparr>frame_id_m = 1, access_count_m = 2, evictable_m = True\<rparr>],
                     hash_m := [1 \<mapsto> In_inf_list], curr_size_m := 1\<rparr>, Some 2) \<and>
   Evict replacer_B =
     Inr (replacer_B\<lparr>countable_list_m := [\<lparr>frame_id_m = 1, access_count_m = 3, evictable_m = True\<rparr>],
                     hash_m := [1 \<mapsto> In_countable_list, 3 \<mapsto> In_inf_list],
                     curr_size_m := 1\<rparr>, Some 2) \<and>
   (\<exists>r'. Evict (new_LRUKReplacer 4 3) = Inr (r', None)) \<and>
   (\<exists>r' moved. RecordAccess replacer_A 2 = Inr r' \<and> frame_id_m moved = 2 \<and>
      inf_list_m r' = [\<lparr>frame_id_m = 1, access_count_m = 2, evictable_m = True\<rparr>, moved])"
proof -
  let ?n1 = "\<lparr>frame_id_m = 1, access_count_m = 2, evictable_m = True\<rparr>"
  let ?n2 = "\<lparr>frame_id_m = 2, access_count_m = 1, evictable_m = True\<rparr>"
  let ?c1 = "\<lparr>frame_id_m = 1, access_count_m = 3, evictable_m = True\<rparr>"
  let ?c2 = "\<lparr>frame_id_m = 2, access_count_m = 2, evictable_m = True\<rparr>"
  have iA: "replacer_inv replacer_A"
    by (auto simp: replacer_inv_def replacer_A_def)
  have iB: "replacer_inv replacer_B"
    by (auto simp: replacer_inv_def replacer_B_def)
  have i0: "replacer_inv (new_LRUKReplacer 4 3)"
    by (simp add: replacer_inv_def new_LRUKReplacer_def)
  have hA: "inf_list_m replacer_A = [] @ ?n2 # [?n1] \<and> (\<forall>m \<in> set []. \<not> evictable_m m) \<and>
      evictable_m ?n2"
    by (simp add: replacer_A_def)
  have hB: "(\<forall>m \<in> set (inf_list_m replacer_B). \<not> evictable_m m) \<and>
      countable_list_m replacer_B = [] @ ?c2 # [?c1] \<and> (\<forall>m \<in> set []. \<not> evictable_m m) \<and>
      evictable_m ?c2"
    by (simp add: replacer_B_def)
  have h0: "\<forall>f. tracked (new_LRUKReplacer 4 3) f \<longrightarrow> \<not> is_evictable (new_LRUKReplacer 4 3) f"
    by (simp add: tracked_def new_LRUKReplacer_def)
  have hR: "1 \<le> k_m replacer_A \<and> frame_id_assertion replacer_A 2"
    by (simp add: replacer_A_def frame_id_assertion_def int_cast_small)
  have eA: "Evict replacer_A =
     Inr (replacer_A\<lparr>inf_list_m := [?n1], hash_m := [1 \<mapsto> In_inf_list], curr_size_m := 1\<rparr>, Some 2)"
    using Evict_order [OF iA, of "[]" ?n2 "[?n1]", THEN conjunct1] hA
    by (auto simp: replacer_A_def)
  have eB: "Evict replacer_B =
     Inr (replacer_B\<lparr>countable_list_m := [?c1],
                     hash_m := [1 \<mapsto> In_countable_list, 3 \<mapsto> In_inf_list],
                     curr_size_m := 1\<rparr>, Some 2)"
    using Evict_order [OF iB, of "[]" ?c2 "[?c1]", THEN conjunct2, THEN conjunct1] hB
    by (auto simp: replacer_B_def)
  have e0: "\<exists>r'. Evict (new_LRUKReplacer 4 3) = Inr (r', None)"
    using Evict_order [OF i0, of "[]" undefined "[]" undefined,
        THEN conjunct2, THEN conjunct2, THEN conjunct1] h0
    by simp
  have rA: "\<exists>r' moved. RecordAccess replacer_A 2 = Inr r' \<and> frame_id_m moved = 2 \<and>
      inf_list_m r' = [?n1, moved]"
    using Evict_order [OF iA, of "[]" undefined "[]" 2,
        THEN conjunct2, THEN conjunct2, THEN conjunct2] hR
    by (auto simp: replacer_A_def RecordAccess_def list_of_def frame_id_assertion_def
        int_cast_small)
  from iA iB i0 eA eB e0 rA show ?thesis
    by simp
qed

text \<open>
  C5 as stated fails. With \<open>k = 3\<close> and the accesses 1, 2, 1, both frames are in
  History and frame 1 was recorded first, but \<open>Evict\<close> returns frame 2. With
  \<open>k = 2\<close> and the accesses 1, 1, 2, 2, 1, both frames are in Cache and frame 1 reached
  \<open>k\<close> accesses first, but \<open>Evict\<close> returns frame 2.
\<close>
theorem Evict_first_recorded_counterexample:
  "victim_after 4 3 [1, 2, 1] = Inr (Some 2) \<and> spec_victim 3 [1, 2, 1] = Some 1 \<and>
   victim_after 4 2 [1, 1, 2, 2, 1] = Inr (Some 2) \<and> spec_victim 2 [1, 1, 2, 2, 1] = Some 1"
  by (simp add: replacer_eval)

text \<open>On the scenarios of the specification the two agree.\<close>

lemma spec_scenarios_agree:
  "victim_after 7 2 [1, 2, 3, 4, 1, 2, 3, 4] = Inr (Some 1)"
  "spec_victim 2 [1, 2, 3, 4, 1, 2, 3, 4] = Some 1"
  "victim_after 7 2 [1, 2, 3, 1] = Inr (Some 2)"
  "spec_victim 2 [1, 2, 3, 1] = Some 2"
  "victim_after 7 3 [1, 2, 2, 3, 3, 3] = Inr (Some 1)"
  "spec_victim 3 [1, 2, 2, 3, 3, 3] = Some 1"
  by (simp_all add: replacer_eval)

section \<open>Extendible hash table: properties\<close>

lemma table_examples_reached:
  "Insert2 1 std_hash_int (new_ExtendibleHashTable 1) 0 ''a'' = Inr table_0"
  "Insert2 2 std_hash_int table_0 1 ''b'' = Inr table_01"
  "Insert2 2 std_hash_int table_01 2 ''c'' = Inr table_012"
  "Insert2 2 std_hash_int table_012 4 ''d'' = Inr table_0124"
  "Insert2 2 std_hash_int table_0124 3 ''e'' = Inr table_01243"
  "Insert std_hash_int (new_ExtendibleHashTable 1) 0 ''a'' = Some (Inr table_0)"
  by code_simp+

text \<open>
  C3, evaluated on the second listing: in \<open>table_0124\<close> every bucket is referenced by
  \<open>2 ^ (global_depth - local_depth)\<close> entries. \<open>Insert(3)\<close> splits the bucket of
  entries 1, 3, 5 and 7, of local depth 1: its depth becomes 2 and only entry 3 is
  rewritten, to the new bucket. Entries 1, 5 and 7 still hold the old bucket, three
  references where \<open>2 ^ (3 - 2) = 2\<close> are due, and the new one has one.
\<close>
theorem Insert2_ref_counts:
  "Insert2 2 std_hash_int table_0124 3 ''e'' = Inr table_01243 \<and>
   GetGlobalDepth table_01243 = 3 \<and>
   GetLocalDepth table_01243 1 = Inr 2 \<and>
   count_list (dir_m table_01243) (dir_m table_01243 ! 1) = 3 \<and>
   GetLocalDepth table_01243 3 = Inr 2 \<and>
   count_list (dir_m table_01243) (dir_m table_01243 ! 3) = 1 \<and>
   dir_m table_0124 = [0, 1, 2, 1, 3, 1, 2, 1] \<and>
   dir_m table_01243 = [0, 1, 2, 4, 3, 1, 2, 1]"
  by code_simp

lemma ref_counts_examples: "ref_counts_ok table_0124" "\<not> ref_counts_ok table_01243"
  by code_simp+

text \<open>
  C4, evaluated on the second listing: \<open>Insert(2)\<close> on \<open>table_01\<close> splits one
  bucket (the directory refers to 3 buckets instead of 2) and \<open>GetNumBuckets\<close> goes from
  2 to 4, the size of the doubled directory; \<open>Insert(3)\<close> on \<open>table_0124\<close> splits one
  bucket without doubling (5 buckets instead of 4) and \<open>GetNumBuckets\<close> stays 8.
\<close>
theorem Insert2_num_buckets:
  "Insert2 2 std_hash_int table_01 2 ''c'' = Inr table_012 \<and>
   GetNumBuckets table_01 = 2 \<and> GetNumBuckets table_012 = 4 \<and>
   length (remdups (dir_m table_01)) = 2 \<and> length (remdups (dir_m table_012)) = 3 \<and>
   Insert2 2 std_hash_int table_0124 3 ''e'' = Inr table_01243 \<and>
   GetNumBuckets table_0124 = 8 \<and> GetNumBuckets table_01243 = 8 \<and>
   length (remdups (dir_m table_0124)) = 4 \<and> length (remdups (dir_m table_01243)) = 5"
  by code_simp

subsection \<open>The first listing counts its splits\<close>

text \<open>
  An \<open>Insert\<close> of the first listing that returns has run its loop some \<open>n\<close> times,
  while the key's bucket was full, and \<open>num_buckets_\<close> has grown by \<open>n\<close>.
\<close>

lemma Bucket_Insert_fields:
  "size_m (snd (Bucket_Insert b key val)) = size_m b"
  "depth_m (snd (Bucket_Insert b key val)) = depth_m b"
  by (auto simp: Bucket_Insert_def split: option.splits)

lemma split_step_num_buckets: "num_buckets_m (split_step h t i) = num_buckets_m t + 1"
  by (simp add: split_step_def Let_def split: prod.splits)

lemma splits_num_buckets: "num_buckets_m (splits n h t key) = num_buckets_m t + n"
  by (induction n arbitrary: t) (simp_all add: split_step_num_buckets)

lemma splits_Suc_end:
  "splits (Suc n) h t key = split_step h (splits n h t key) (IndexOf h (splits n h t key) key)"
  by (induction n arbitrary: t) simp_all

lemma InsertInternal_splits:
  assumes "InsertInternal h t key val = Some (Inr t')"
  shows "\<exists>n a. (\<forall>i < n. target_full h (splits i h t key) key) \<and>
           \<not> target_full h (splits n h t key) key \<and>
           dir_at (splits n h t key) (IndexOf h (splits n h t key) key) = Inr a \<and>
           t' = (splits n h t key)\<lparr>heap_m := (heap_m (splits n h t key))
                  [a := snd (Bucket_Insert (heap_m (splits n h t key) ! a) key val)]\<rparr> \<and>
           num_buckets_m t' = num_buckets_m t + n"
proof -
  have "\<forall>t'. y = Inr t' \<longrightarrow>
        (\<exists>n a. (\<forall>i < n. target_full h (splits i h t key) key) \<and>
           \<not> target_full h (splits n h t key) key \<and>
           dir_at (splits n h t key) (IndexOf h (splits n h t key) key) = Inr a \<and>
           t' = (splits n h t key)\<lparr>heap_m := (heap_m (splits n h t key))
                  [a := snd (Bucket_Insert (heap_m (splits n h t key) ! a) key val)]\<rparr>)"
    if "InsertInternal h t key val = Some y" for y
    using that
  proof (induction rule: InsertInternal.raw_induct [rotated 1, consumes 1])
    case (1 ins h t key val y)
    show ?case
    proof (cases "dir_at t (IndexOf h t key)")
      case (Inl e)
      with 1(2) show ?thesis by auto
    next
      case (Inr a)
      show ?thesis
      proof (cases "IsFull (heap_m t ! a)")
        case False
        with Inr 1(2) have y: "y = Inr (t\<lparr>heap_m := (heap_m t)
            [a := snd (Bucket_Insert (heap_m t ! a) key val)]\<rparr>)"
          by simp
        from Inr False have nf: "\<not> target_full h (splits 0 h t key) key"
          by (simp add: target_full_def)
        show ?thesis
        proof (intro allI impI)
          fix t' assume "y = Inr t'"
          with y Inr nf show "\<exists>n a. (\<forall>i < n. target_full h (splits i h t key) key) \<and>
             \<not> target_full h (splits n h t key) key \<and>
             dir_at (splits n h t key) (IndexOf h (splits n h t key) key) = Inr a \<and>
             t' = (splits n h t key)\<lparr>heap_m := (heap_m (splits n h t key))
                    [a := snd (Bucket_Insert (heap_m (splits n h t key) ! a) key val)]\<rparr>"
            by (intro exI [of _ 0] exI [of _ a]) simp
        qed
      next
        case True
        let ?t1 = "split_step h t (IndexOf h t key)"
        from Inr True 1(2) have rec: "ins h ?t1 key val = Some y"
          by simp
        from Inr True have full0: "target_full h t key"
          by (simp add: target_full_def)
        show ?thesis
        proof (intro allI impI)
          fix t' assume "y = Inr t'"
          with 1(1) [OF rec] obtain n a where
            n: "\<forall>i < n. target_full h (splits i h ?t1 key) key"
              "\<not> target_full h (splits n h ?t1 key) key"
              "dir_at (splits n h ?t1 key) (IndexOf h (splits n h ?t1 key) key) = Inr a"
              "t' = (splits n h ?t1 key)\<lparr>heap_m := (heap_m (splits n h ?t1 key))
                     [a := snd (Bucket_Insert (heap_m (splits n h ?t1 key) ! a) key val)]\<rparr>"
            by blast
          have "\<forall>i < Suc n. target_full h (splits i h t key) key"
          proof (intro allI impI)
            fix i assume "i < Suc n"
            then show "target_full h (splits i h t key) key"
              using full0 n(1) by (cases i) auto
          qed
          with n(2,3,4) show "\<exists>n a. (\<forall>i < n. target_full h (splits i h t key) key) \<and>
             \<not> target_full h (splits n h t key) key \<and>
             dir_at (splits n h t key) (IndexOf h (splits n h t key) key) = Inr a \<and>
             t' = (splits n h t key)\<lparr>heap_m := (heap_m (splits n h t key))
                    [a := snd (Bucket_Insert (heap_m (splits n h t key) ! a) key val)]\<rparr>"
            by (intro exI [of _ "Suc n"] exI [of _ a]) simp
        qed
      qed
    qed
  qed
  from this [OF assms] obtain n a where
    n: "\<forall>i < n. target_full h (splits i h t key) key"
       "\<not> target_full h (splits n h t key) key"
       "dir_at (splits n h t key) (IndexOf h (splits n h t key) key) = Inr a"
       "t' = (splits n h t key)\<lparr>heap_m := (heap_m (splits n h t key))
              [a := snd (Bucket_Insert (heap_m (splits n h t key) ! a) key val)]\<rparr>"
    by blast
  from n(4) have "num_buckets_m t' = num_buckets_m t + n"
    by (simp add: splits_num_buckets)
  with n show ?thesis
    by blast
qed

subsection \<open>An existing key in a full bucket\<close>

lemma push_back_loop_take:
  "i \<le> length d \<Longrightarrow> push_back_loop i (length d) (d @ take i d) = d @ d"
proof (induction "length d - i" arbitrary: i)
  case 0
  then show ?case
    by (simp add: push_back_loop.simps)
next
  case (Suc m)
  then have i: "i < length d"
    by simp
  then have "(d @ take i d) @ [(d @ take i d) ! i] = d @ take (Suc i) d"
    by (simp add: nth_append take_Suc_conv_app_nth)
  moreover from Suc have "push_back_loop (Suc i) (length d) (d @ take (Suc i) d) = d @ d"
    by simp
  ultimately show ?case
    using i by (subst push_back_loop.simps) simp
qed

lemma push_back_loop_double: "push_back_loop 0 (length d) d = d @ d"
  using push_back_loop_take [of 0 d] by simp

lemma stuck_split_step:
  assumes "stuck h t key"
  shows "stuck h (split_step h t 0) key"
proof -
  from assms obtain a where a: "dir_at t 0 = Inr a"
    and s: "h key = 0" "bucket_size_m t = 1" "size_m (heap_m t ! a) = 1"
      "map fst (list_m (heap_m t ! a)) = [key]"
    by (auto simp: stuck_def split: sum.splits)
  from a obtain rest where d: "dir_m t = a # rest" and v: "a < length (heap_m t)"
    by (cases "dir_m t") (auto simp: dir_at_def split: if_splits)
  from s(4) obtain v0 where items: "list_m (heap_m t ! a) = [(key, v0)]"
    by (cases "list_m (heap_m t ! a)") auto
  let ?b = "\<lparr>size_m = 1, depth_m = depth_m (heap_m t ! a) + 1, list_m = [(key, v0)]\<rparr>"
  have dist: "fst (distribute h m [(key, v0)] (new_Bucket 1 n) (new_Bucket 1 n)) =
      \<lparr>size_m = 1, depth_m = n, list_m = [(key, v0)]\<rparr>" for m n
    using s(1) by (simp add: Bucket_Insert_def new_Bucket_def IsFull_def)
  have pb: "push_back_loop 0 (Suc (length rest)) (a # rest) = a # rest @ a # rest"
    using push_back_loop_double [of "a # rest"] by simp
  show ?thesis
    using d v s(1,2) items dist pb
    by (auto simp: stuck_def split_step_def Let_def dir_at_def GetDepth_def GetItems_def
        nth_append split: prod.splits)
qed

lemma stuck_no_return:
  assumes "stuck h t key"
  shows "InsertInternal h t key val = None"
proof -
  have "\<not> stuck h t key" if "InsertInternal h t key val = Some y" for y
    using that
  proof (induction rule: InsertInternal.raw_induct [rotated 1, consumes 1])
    case (1 ins h t key val y)
    show ?case
    proof
      assume st: "stuck h t key"
      then have i: "IndexOf h t key = 0"
        by (simp add: stuck_def IndexOf_def)
      from st obtain a where a: "dir_at t 0 = Inr a" and "IsFull (heap_m t ! a)"
        by (auto simp: stuck_def IsFull_def split: sum.splits dest: arg_cong [where f = length])
      with 1(2) i have "ins h (split_step h t 0) key val = Some y"
        by simp
      from 1(1) [OF this] stuck_split_step [OF st] show False
        by simp
    qed
  qed
  with assms show ?thesis
    by (cases "InsertInternal h t key val") auto
qed

text \<open>
  C10, evaluated on the first listing: with buckets of one pair, \<open>Insert(0, a)\<close> on the
  empty table stores the pair, and \<open>Insert(0, b)\<close> then never returns. The loop splits
  whenever the key's bucket is full, without looking for the key first, and each split
  leaves the key alone in a full bucket.
\<close>
theorem Insert_existing_key_no_return:
  "Insert std_hash_int (new_ExtendibleHashTable 1) 0 ''a'' = Some (Inr table_0) \<and>
   Find std_hash_int table_0 0 = Inr (Some ''a'') \<and>
   Insert std_hash_int table_0 0 ''b'' = None"
proof -
  have 1: "Insert std_hash_int (new_ExtendibleHashTable 1) 0 ''a'' = Some (Inr table_0)"
    by code_simp
  have 2: "Find std_hash_int table_0 0 = Inr (Some ''a'')"
    by code_simp
  have "stuck std_hash_int table_0 0"
    by code_simp
  then have 3: "Insert std_hash_int table_0 0 ''b'' = None"
    unfolding Insert_def by (rule stuck_no_return)
  from 1 2 3 show ?thesis
    by simp
qed

subsection \<open>Find after Insert\<close>

text \<open>An \<open>Insert\<close> that returns, of either listing, leaves the key with its value.\<close>

lemma update_loop_find_loop:
  "update_loop ps key val = Some ps' \<Longrightarrow> find_loop ps' key = Some val"
  by (induction ps arbitrary: ps') (auto split: if_splits option.splits)

lemma update_loop_None: "update_loop ps key val = None \<longleftrightarrow> key \<notin> fst ` set ps"
  by (induction ps) (auto split: option.splits)

lemma find_loop_append_absent:
  "key \<notin> fst ` set ps \<Longrightarrow> find_loop (ps @ [(key, val)]) key = Some val"
  by (induction ps) auto

lemma Bucket_Insert_Find:
  "\<not> IsFull b \<or> Bucket_Find b key \<noteq> None \<Longrightarrow>
     Bucket_Find (snd (Bucket_Insert b key val)) key = Some val"
  by (auto simp: Bucket_Insert_def Bucket_Find_def update_loop_find_loop update_loop_None
      find_loop_append_absent find_loop_None split: option.splits)

lemma Find_after_bucket_insert:
  assumes "dir_at t (IndexOf h t key) = Inr a"
    and "\<not> IsFull (heap_m t ! a) \<or> Bucket_Find (heap_m t ! a) key \<noteq> None"
  shows "Find h (t\<lparr>heap_m := (heap_m t)[a := snd (Bucket_Insert (heap_m t ! a) key val)]\<rparr>) key
           = Inr (Some val)"
proof -
  let ?t = "t\<lparr>heap_m := (heap_m t)[a := snd (Bucket_Insert (heap_m t ! a) key val)]\<rparr>"
  have "IndexOf h ?t key = IndexOf h t key"
    by (simp add: IndexOf_def)
  moreover from assms(1) have "dir_at ?t (IndexOf h t key) = Inr a" and "a < length (heap_m t)"
    by (auto simp: dir_at_def split: if_splits)
  ultimately show ?thesis
    using Bucket_Insert_Find [OF assms(2), of val] by (simp add: Find_def)
qed

lemma InsertInternal_Find:
  assumes "InsertInternal h t key val = Some (Inr t')"
  shows "Find h t' key = Inr (Some val)"
proof -
  from InsertInternal_splits [OF assms] obtain n a where
    nf: "\<not> target_full h (splits n h t key) key"
    and a: "dir_at (splits n h t key) (IndexOf h (splits n h t key) key) = Inr a"
    and t': "t' = (splits n h t key)\<lparr>heap_m := (heap_m (splits n h t key))
              [a := snd (Bucket_Insert (heap_m (splits n h t key) ! a) key val)]\<rparr>"
    by blast
  from nf a have "\<not> IsFull (heap_m (splits n h t key) ! a)"
    by (simp add: target_full_def)
  with Find_after_bucket_insert [OF a, of val] t' show ?thesis
    by simp
qed

lemma InsertInternal2_Find:
  "InsertInternal2 n h t key val = Inr t' \<Longrightarrow> Find h t' key = Inr (Some val)"
proof (induction n arbitrary: t t')
  case 0
  then show ?case by simp
next
  case (Suc n)
  show ?case
  proof (cases "dir_at t (IndexOf h t key)")
    case (Inl e)
    with Suc.prems show ?thesis by (simp add: Let_def)
  next
    case (Inr a)
    show ?thesis
    proof (cases "Bucket_Find (heap_m t ! a) key \<noteq> None \<or> \<not> IsFull (heap_m t ! a)")
      case True
      with Suc.prems Inr have "t' = t\<lparr>heap_m := (heap_m t)
          [a := snd (Bucket_Insert (heap_m t ! a) key val)]\<rparr>"
        by (cases "Bucket_Find (heap_m t ! a) key = None") simp_all
      with Find_after_bucket_insert [OF Inr, of val] True show ?thesis
        by auto
    next
      case False
      with Suc.prems Inr obtain t4 where "InsertInternal2 n h t4 key val = Inr t'"
        by (auto simp: Let_def split: if_splits sum.splits)
      then show ?thesis
        by (rule Suc.IH)
    qed
  qed
qed

lemma update_loop_keys: "update_loop ps key val = Some ps' \<Longrightarrow> map fst ps' = map fst ps"
  by (induction ps arbitrary: ps') (auto split: if_splits option.splits)

lemma Bucket_Insert_present_keys:
  "Bucket_Find b key \<noteq> None \<Longrightarrow>
     map fst (list_m (snd (Bucket_Insert b key val))) = map fst (list_m b)"
  by (auto simp: Bucket_Insert_def Bucket_Find_def update_loop_keys update_loop_None find_loop_None
      split: option.splits)

text \<open>
  With the second listing, an \<open>Insert\<close> of a key that an earlier \<open>Insert\<close> stored
  returns at once; the key then has the new value, and the directory and the keys of
  every bucket are as before: no pair is added.
\<close>

lemma Insert2_twice:
  assumes "Insert2 n h t key v1 = Inr t1"
  shows "\<exists>t2. Insert2 (Suc m) h t1 key v2 = Inr t2 \<and> Find h t2 key = Inr (Some v2) \<and>
           dir_m t2 = dir_m t1 \<and>
           map (\<lambda>b. map fst (list_m b)) (heap_m t2) = map (\<lambda>b. map fst (list_m b)) (heap_m t1)"
proof -
  from assms have f: "Find h t1 key = Inr (Some v1)"
    unfolding Insert2_def by (rule InsertInternal2_Find)
  then obtain a where a: "dir_at t1 (IndexOf h t1 key) = Inr a"
    and b: "Bucket_Find (heap_m t1 ! a) key \<noteq> None"
    by (auto simp: Find_def Let_def split: sum.splits)
  let ?t2 = "t1\<lparr>heap_m := (heap_m t1)[a := snd (Bucket_Insert (heap_m t1 ! a) key v2)]\<rparr>"
  from a b have 1: "Insert2 (Suc m) h t1 key v2 = Inr ?t2"
    by (simp add: Insert2_def Let_def)
  have 2: "Find h ?t2 key = Inr (Some v2)"
    using Find_after_bucket_insert [OF a, of v2] b by auto
  have 3: "map (\<lambda>b. map fst (list_m b)) (heap_m ?t2) = map (\<lambda>b. map fst (list_m b)) (heap_m t1)"
  proof -
    from a have "a < length (heap_m t1)"
      by (auto simp: dir_at_def split: if_splits)
    then have "(map (\<lambda>b. map fst (list_m b)) (heap_m t1))[a := map fst (list_m (heap_m t1 ! a))] =
        map (\<lambda>b. map fst (list_m b)) (heap_m t1)"
      by (intro nth_equalityI) (auto simp: nth_list_update)
    with Bucket_Insert_present_keys [OF b, of v2] show ?thesis
      by (simp add: map_update)
  qed
  from 1 2 3 show ?thesis
    by simp
qed

subsection \<open>The first listing keeps the shape of the directory\<close>

text \<open>
  The property of C3 holds for the first listing. The directory shape \<open>dir_inv\<close> holds
  of the empty table, every split of the first listing keeps it (\<open>rewrite_dir\<close>
  gives every entry that held the split bucket one of the two new buckets, by the bit
  \<open>local_depth - 1\<close> of the entry's index), and it gives every bucket
  \<open>2 ^ (global_depth - local_depth)\<close> references.
\<close>

lemma card_residue_class:
  fixes r d g :: nat
  assumes "r < 2 ^ d" and "d \<le> g"
  shows "card {j. j < 2 ^ g \<and> j mod 2 ^ d = r} = 2 ^ (g - d)"
proof -
  have pow: "(2::nat) ^ g = 2 ^ (g - d) * 2 ^ d"
    using assms(2) by (simp add: power_add [symmetric])
  have "{j. j < 2 ^ g \<and> j mod 2 ^ d = r} = (\<lambda>q. q * 2 ^ d + r) ` {..<2 ^ (g - d)}"
  proof (intro set_eqI iffI)
    fix j assume "j \<in> {j. j < 2 ^ g \<and> j mod 2 ^ d = r}"
    then have j: "j < 2 ^ g" "j mod 2 ^ d = r"
      by simp_all
    then have "j div 2 ^ d < 2 ^ (g - d)"
      using pow by (simp add: less_mult_imp_div_less)
    moreover have "j = (j div 2 ^ d) * 2 ^ d + r"
      using j(2) by (metis div_mult_mod_eq)
    ultimately show "j \<in> (\<lambda>q. q * 2 ^ d + r) ` {..<2 ^ (g - d)}"
      by blast
  next
    fix j assume "j \<in> (\<lambda>q. q * 2 ^ d + r) ` {..<2 ^ (g - d)}"
    then obtain q where q: "q < 2 ^ (g - d)" "j = q * 2 ^ d + r"
      by blast
    from q(1) have "Suc q * 2 ^ d \<le> 2 ^ (g - d) * 2 ^ d"
      by (intro mult_le_mono1) simp
    with assms(1) q(2) pow have "j < 2 ^ g"
      by simp
    moreover from assms(1) q(2) have "j mod 2 ^ d = r"
      by simp
    ultimately show "j \<in> {j. j < 2 ^ g \<and> j mod 2 ^ d = r}"
      by simp
  qed
  moreover have "inj_on (\<lambda>q. q * 2 ^ d + r) {..<2 ^ (g - d)}"
    by (rule inj_onI) simp
  ultimately show ?thesis
    by (simp add: card_image)
qed

lemma count_list_card: "count_list xs a = card {j. j < length xs \<and> xs ! j = a}"
proof -
  have "count_list xs a = length (filter ((=) a) xs)"
    by (rule count_list_eq_length_filter)
  also have "\<dots> = card {j. j < length xs \<and> a = xs ! j}"
    by (rule length_filter_conv_card)
  also have "{j. j < length xs \<and> a = xs ! j} = {j. j < length xs \<and> xs ! j = a}"
    by auto
  finally show ?thesis .
qed

lemma dir_inv_ref_counts:
  assumes "dir_inv t"
  shows "ref_counts_ok t"
  unfolding ref_counts_ok_def
proof
  fix a assume "a \<in> set (dir_m t)"
  then obtain i where i: "i < length (dir_m t)" "dir_m t ! i = a"
    by (auto simp: in_set_conv_nth)
  let ?d = "depth_m (heap_m t ! a)"
  from assms i have len: "length (dir_m t) = 2 ^ global_depth_m t"
    and d: "?d \<le> global_depth_m t"
    and cls: "\<forall>j < length (dir_m t). dir_m t ! j = a \<longleftrightarrow> j mod 2 ^ ?d = i mod 2 ^ ?d"
    unfolding dir_inv_def dir_shape_def by auto
  have "{j. j < length (dir_m t) \<and> dir_m t ! j = a} =
      {j. j < 2 ^ global_depth_m t \<and> j mod 2 ^ ?d = i mod 2 ^ ?d}"
    using cls len by auto
  then have "count_list (dir_m t) a = card {j. j < 2 ^ global_depth_m t \<and> j mod 2 ^ ?d = i mod 2 ^ ?d}"
    by (simp add: count_list_card)
  also have "\<dots> = 2 ^ (global_depth_m t - ?d)"
    using d by (intro card_residue_class) simp_all
  finally show "count_list (dir_m t) a = 2 ^ (global_depth_m t - GetDepth (heap_m t ! a))"
    by (simp add: GetDepth_def)
qed

lemma mod_Suc_power_iff:
  fixes i j d :: nat
  shows "j mod 2 ^ Suc d = i mod 2 ^ Suc d \<longleftrightarrow>
     j mod 2 ^ d = i mod 2 ^ d \<and> (j AND 2 ^ d \<noteq> 0 \<longleftrightarrow> i AND 2 ^ d \<noteq> 0)"
proof -
  have bit: "x AND 2 ^ d \<noteq> 0 \<longleftrightarrow> bit x d" for x :: nat
    by (simp add: and_exp_eq_0_iff_not_bit)
  have tb: "take_bit (Suc d) x = take_bit d x + 2 ^ d * of_bool (bit x d)" for x :: nat
    by (simp add: take_bit_Suc_from_most)
  define a b p where "a = take_bit d j" and "b = take_bit d i" and "p = (2::nat) ^ d"
  have lt: "a < p" "b < p"
    by (simp_all add: a_def b_def p_def)
  have "a + p * of_bool (bit j d) = b + p * of_bool (bit i d) \<longleftrightarrow>
      a = b \<and> (bit j d \<longleftrightarrow> bit i d)"
    using lt by (cases "bit j d"; cases "bit i d") auto
  then have "take_bit (Suc d) j = take_bit (Suc d) i \<longleftrightarrow>
      take_bit d j = take_bit d i \<and> (bit j d \<longleftrightarrow> bit i d)"
    unfolding tb a_def b_def p_def .
  then have "j mod 2 ^ Suc d = i mod 2 ^ Suc d \<longleftrightarrow>
      j mod 2 ^ d = i mod 2 ^ d \<and> (bit j d \<longleftrightarrow> bit i d)"
    unfolding take_bit_eq_mod .
  then show ?thesis
    unfolding bit .
qed

lemma length_rewrite_dir: "length (rewrite_dir a m a0 a1 k xs) = length xs"
  by (induction xs arbitrary: k) simp_all

lemma nth_rewrite_dir:
  "j < length xs \<Longrightarrow>
     rewrite_dir a m a0 a1 k xs ! j =
       (if xs ! j = a then (if (k + j) AND m \<noteq> 0 then a1 else a0) else xs ! j)"
proof (induction xs arbitrary: k j)
  case Nil
  then show ?case by simp
next
  case (Cons x xs)
  show ?case
  proof (cases j)
    case 0
    then show ?thesis by simp
  next
    case (Suc j')
    with Cons.prems have "j' < length xs"
      by simp
    from Cons.IH [OF this, of "k + 1"] Suc show ?thesis
      by simp
  qed
qed

lemma distribute_depth:
  "depth_m (fst (distribute h m items b0 b1)) = depth_m b0 \<and>
   depth_m (snd (distribute h m items b0 b1)) = depth_m b1"
  by (induction items arbitrary: b0 b1) (simp_all add: Bucket_Insert_fields)

lemma split_step_fields:
  fixes t :: "('k, 'v) ExtendibleHashTable" and i :: nat
  defines "a \<equiv> dir_m t ! i"
  defines "d \<equiv> depth_m (heap_m t ! (dir_m t ! i))"
  shows "global_depth_m (split_step h t i) =
           (if d = global_depth_m t then global_depth_m t + 1 else global_depth_m t)"
    and "dir_m (split_step h t i) =
           rewrite_dir a (2 ^ d) (length (heap_m t)) (length (heap_m t) + 1) 0
             (if d = global_depth_m t then dir_m t @ dir_m t else dir_m t)"
    and "\<exists>b0 b1. heap_m (split_step h t i) = heap_m t @ [b0, b1] \<and>
           depth_m b0 = d + 1 \<and> depth_m b1 = d + 1"
proof -
  show "global_depth_m (split_step h t i) =
           (if d = global_depth_m t then global_depth_m t + 1 else global_depth_m t)"
    by (simp add: split_step_def Let_def GetDepth_def d_def split: prod.splits)
  show "dir_m (split_step h t i) =
           rewrite_dir a (2 ^ d) (length (heap_m t)) (length (heap_m t) + 1) 0
             (if d = global_depth_m t then dir_m t @ dir_m t else dir_m t)"
    by (simp add: split_step_def Let_def GetDepth_def d_def a_def push_back_loop_double
        split: prod.splits)
  let ?nb = "new_Bucket (bucket_size_m t) (d + 1) :: ('k, 'v) Bucket"
  let ?p = "distribute h (2 ^ d) (GetItems (heap_m t ! a)) ?nb ?nb"
  have "heap_m (split_step h t i) = heap_m t @ [fst ?p, snd ?p]"
    by (simp add: split_step_def Let_def GetDepth_def d_def a_def split: prod.splits)
  moreover have "depth_m (fst ?p) = d + 1 \<and> depth_m (snd ?p) = d + 1"
    using distribute_depth [of h "2 ^ d" "GetItems (heap_m t ! a)" ?nb ?nb]
    by (simp add: new_Bucket_def)
  ultimately show "\<exists>b0 b1. heap_m (split_step h t i) = heap_m t @ [b0, b1] \<and>
           depth_m b0 = d + 1 \<and> depth_m b1 = d + 1"
    by blast
qed

lemma dir_shapeD:
  assumes "dir_shape g dir depth n"
  shows "length dir = 2 ^ g"
    and "\<And>i. i < length dir \<Longrightarrow> dir ! i < n"
    and "\<And>i. i < length dir \<Longrightarrow> depth (dir ! i) \<le> g"
    and "\<And>i j. i < length dir \<Longrightarrow> j < length dir \<Longrightarrow>
           dir ! j = dir ! i \<longleftrightarrow> j mod 2 ^ depth (dir ! i) = i mod 2 ^ depth (dir ! i)"
  using assms unfolding dir_shape_def by auto

lemma shape_double:
  assumes "dir_shape g dir depth n"
  shows "dir_shape (Suc g) (dir @ dir) depth n"
proof -
  note s = dir_shapeD [OF assms]
  let ?L = "length dir"
  have L: "?L = 2 ^ g" "0 < ?L"
    using s(1) by simp_all
  have nth: "(dir @ dir) ! j = dir ! (j mod ?L)" if "j < 2 * ?L" for j
  proof (cases "j < ?L")
    case True
    then show ?thesis by (simp add: nth_append)
  next
    case False
    with that have "j mod ?L = j - ?L"
      by (simp add: mod_if)
    with False show ?thesis by (simp add: nth_append)
  qed
  have red: "(j mod ?L) mod 2 ^ e = j mod 2 ^ e" if "e \<le> g" for j e
    using that L(1) by (simp add: mod_mod_cancel le_imp_power_dvd)
  show ?thesis
    unfolding dir_shape_def
  proof (intro conjI allI impI)
    show "length (dir @ dir) = 2 ^ Suc g"
      using L by simp
  next
    fix i assume "i < length (dir @ dir)"
    then have i: "i < 2 * ?L" "i mod ?L < ?L"
      using L by simp_all
    show "(dir @ dir) ! i < n"
      using nth [OF i(1)] s(2) [OF i(2)] by simp
    show "depth ((dir @ dir) ! i) \<le> Suc g"
      using nth [OF i(1)] s(3) [OF i(2)] by simp
  next
    fix i j assume "i < length (dir @ dir)" "j < length (dir @ dir)"
    then have i: "i < 2 * ?L" "i mod ?L < ?L" and j: "j < 2 * ?L" "j mod ?L < ?L"
      using L by simp_all
    let ?e = "depth (dir ! (i mod ?L))"
    have "(dir @ dir) ! j = (dir @ dir) ! i \<longleftrightarrow> dir ! (j mod ?L) = dir ! (i mod ?L)"
      using nth [OF i(1)] nth [OF j(1)] by simp
    also have "\<dots> \<longleftrightarrow> (j mod ?L) mod 2 ^ ?e = (i mod ?L) mod 2 ^ ?e"
      using s(4) [OF i(2) j(2)] .
    also have "\<dots> \<longleftrightarrow> j mod 2 ^ ?e = i mod 2 ^ ?e"
      using red [OF s(3) [OF i(2)]] by simp
    finally show "(dir @ dir) ! j = (dir @ dir) ! i \<longleftrightarrow>
        j mod 2 ^ depth ((dir @ dir) ! i) = i mod 2 ^ depth ((dir @ dir) ! i)"
      using nth [OF i(1)] by simp
  qed
qed

lemma shape_rewrite:
  assumes sh: "dir_shape g dir depth n" and i: "i < length dir"
    and d: "depth (dir ! i) < g"
    and new: "depth' n = depth (dir ! i) + 1" "depth' (Suc n) = depth (dir ! i) + 1"
    and old: "\<And>c. c < n \<Longrightarrow> depth' c = depth c"
  shows "dir_shape g (rewrite_dir (dir ! i) (2 ^ depth (dir ! i)) n (n + 1) 0 dir) depth' (n + 2)"
proof -
  note s = dir_shapeD [OF sh]
  let ?a = "dir ! i"
  let ?d = "depth ?a"
  let ?dir = "rewrite_dir ?a (2 ^ ?d) n (n + 1) 0 dir"
  have len: "length ?dir = length dir"
    by (rule length_rewrite_dir)
  have nth: "?dir ! j = (if dir ! j = ?a then (if j AND 2 ^ ?d \<noteq> 0 then n + 1 else n) else dir ! j)"
    if "j < length dir" for j
    using nth_rewrite_dir [OF that, of ?a "2 ^ ?d" n "n + 1" 0] by simp
  have cls: "dir ! j = ?a \<longleftrightarrow> j mod 2 ^ ?d = i mod 2 ^ ?d" if "j < length dir" for j
    using s(4) [OF i that] .
  show ?thesis
    unfolding dir_shape_def len
  proof (intro conjI allI impI)
    show "length dir = 2 ^ g"
      by (rule s(1))
  next
    fix j assume j: "j < length dir"
    show "?dir ! j < n + 2"
      using nth [OF j] s(2) [OF j] by auto
    show "depth' (?dir ! j) \<le> g"
      using nth [OF j] s(2) [OF j] s(3) [OF j] d new old by auto
  next
    fix j j' assume j: "j < length dir" and j': "j' < length dir"
    show "?dir ! j' = ?dir ! j \<longleftrightarrow>
        j' mod 2 ^ depth' (?dir ! j) = j mod 2 ^ depth' (?dir ! j)"
    proof (cases "dir ! j = ?a")
      case True
      then have dj: "depth' (?dir ! j) = Suc ?d"
        using nth [OF j] new by auto
      from True have cj: "j mod 2 ^ ?d = i mod 2 ^ ?d"
        using cls [OF j] by simp
      show ?thesis
      proof (cases "dir ! j' = ?a")
        case same: True
        then have cj': "j' mod 2 ^ ?d = i mod 2 ^ ?d"
          using cls [OF j'] by simp
        have "?dir ! j' = ?dir ! j \<longleftrightarrow> (j' AND 2 ^ ?d \<noteq> 0 \<longleftrightarrow> j AND 2 ^ ?d \<noteq> 0)"
          using nth [OF j] nth [OF j'] True same by auto
        also have "\<dots> \<longleftrightarrow> j' mod 2 ^ Suc ?d = j mod 2 ^ Suc ?d"
          using mod_Suc_power_iff [of j' ?d j] cj cj' by simp
        finally show ?thesis
          using dj by simp
      next
        case other: False
        then have "?dir ! j' < n"
          using nth [OF j'] s(2) [OF j'] by simp
        moreover have "n \<le> ?dir ! j"
          using nth [OF j] True by auto
        ultimately have ne: "?dir ! j' \<noteq> ?dir ! j"
          by simp
        from other have "j' mod 2 ^ ?d \<noteq> i mod 2 ^ ?d"
          using cls [OF j'] by simp
        with cj have "j' mod 2 ^ Suc ?d \<noteq> j mod 2 ^ Suc ?d"
          using mod_Suc_power_iff [of j' ?d j] by simp
        with ne dj show ?thesis
          by simp
      qed
    next
      case False
      then have e: "?dir ! j = dir ! j" and lt: "dir ! j < n"
        using nth [OF j] s(2) [OF j] by simp_all
      then have dj: "depth' (?dir ! j) = depth (dir ! j)"
        using old by simp
      have "?dir ! j' = dir ! j \<longleftrightarrow> dir ! j' = dir ! j"
        using nth [OF j'] lt False by auto
      also have "\<dots> \<longleftrightarrow> j' mod 2 ^ depth (dir ! j) = j mod 2 ^ depth (dir ! j)"
        using s(4) [OF j j'] .
      finally show ?thesis
        using e dj by simp
    qed
  qed
qed

lemma dir_inv_new: "dir_inv (new_ExtendibleHashTable bucket_size)"
  by (simp add: dir_inv_def dir_shape_def new_ExtendibleHashTable_def new_Bucket_def)

lemma dir_inv_split_step:
  assumes inv: "dir_inv t" and i: "i < length (dir_m t)"
  shows "dir_inv (split_step h t i)"
proof -
  let ?g = "global_depth_m t"
  let ?n = "length (heap_m t)"
  let ?depth = "\<lambda>a. depth_m (heap_m t ! a)"
  let ?a = "dir_m t ! i"
  let ?d = "?depth ?a"
  let ?t = "split_step h t i"
  from inv have sh: "dir_shape ?g (dir_m t) ?depth ?n"
    by (simp add: dir_inv_def)
  note s = dir_shapeD [OF sh]
  let ?g1 = "if ?d = ?g then Suc ?g else ?g"
  let ?dir1 = "if ?d = ?g then dir_m t @ dir_m t else dir_m t"
  have sh1: "dir_shape ?g1 ?dir1 ?depth ?n"
    using sh shape_double [OF sh] by simp
  have i1: "i < length ?dir1" and a1: "?dir1 ! i = ?a"
    using i by (simp_all add: nth_append)
  have d1: "?depth (?dir1 ! i) < ?g1"
    using s(3) [OF i] a1 by auto
  from split_step_fields(3) [of h t i] obtain b0 b1 where
    heap: "heap_m ?t = heap_m t @ [b0, b1]" and b: "depth_m b0 = ?d + 1" "depth_m b1 = ?d + 1"
    by blast
  let ?depth' = "\<lambda>a. depth_m (heap_m ?t ! a)"
  have "dir_shape ?g1 (rewrite_dir (?dir1 ! i) (2 ^ ?depth (?dir1 ! i)) ?n (?n + 1) 0 ?dir1)
      ?depth' (?n + 2)"
  proof (rule shape_rewrite [OF sh1 i1 d1])
    show "?depth' ?n = ?depth (?dir1 ! i) + 1"
      using heap b a1 by (simp add: nth_append)
    show "?depth' (Suc ?n) = ?depth (?dir1 ! i) + 1"
      using heap b a1 by (simp add: nth_append)
    show "?depth' c = ?depth c" if "c < ?n" for c
      using heap that by (simp add: nth_append)
  qed
  moreover have "global_depth_m ?t = ?g1"
    using split_step_fields(1) [of h t i] by simp
  moreover have "dir_m ?t = rewrite_dir (?dir1 ! i) (2 ^ ?depth (?dir1 ! i)) ?n (?n + 1) 0 ?dir1"
    using split_step_fields(2) [of h t i] a1 by simp
  moreover have "length (heap_m ?t) = ?n + 2"
    using heap by simp
  ultimately show ?thesis
    by (simp add: dir_inv_def)
qed

lemma IndexOf_less:
  assumes "dir_inv t"
  shows "IndexOf h t key < length (dir_m t)"
proof -
  have "IndexOf h t key = take_bit (global_depth_m t) (h key)"
    by (simp add: IndexOf_def take_bit_eq_mask mask_eq_exp_minus_1 push_bit_of_1)
  moreover from assms have "length (dir_m t) = 2 ^ global_depth_m t"
    by (simp add: dir_inv_def dir_shape_def)
  ultimately show ?thesis
    by simp
qed

lemma dir_inv_dir_at:
  assumes "dir_inv t"
  shows "\<exists>a. dir_at t (IndexOf h t key) = Inr a \<and> a < length (heap_m t)"
  using IndexOf_less [OF assms, of h key] assms
  by (auto simp: dir_at_def dir_inv_def dir_shape_def)

lemma dir_inv_splits: "dir_inv t \<Longrightarrow> dir_inv (splits n h t key)"
proof (induction n arbitrary: t)
  case 0
  then show ?case by simp
next
  case (Suc n)
  from dir_inv_split_step [OF Suc.prems IndexOf_less [OF Suc.prems]]
  have "dir_inv (split_step h t (IndexOf h t key))" .
  from Suc.IH [OF this] show ?case
    by simp
qed

lemma dir_inv_bucket_update:
  assumes "dir_inv t" and "depth_m b = depth_m (heap_m t ! a)"
  shows "dir_inv (t\<lparr>heap_m := (heap_m t)[a := b]\<rparr>)"
proof -
  have "depth_m ((heap_m t)[a := b] ! c) = depth_m (heap_m t ! c)" for c
    using assms(2) by (cases "a < length (heap_m t)") (auto simp: nth_list_update list_update_beyond)
  with assms(1) show ?thesis
    by (simp add: dir_inv_def)
qed

text \<open>
  After an \<open>Insert\<close> of the first listing that returns, the directory has its shape
  and the reference counts of C3; and the \<open>Insert\<close> does not fault.
\<close>

lemma InsertInternal_dir_inv:
  assumes "dir_inv t" and "InsertInternal h t key val = Some (Inr t')"
  shows "dir_inv t' \<and> ref_counts_ok t'"
proof -
  from InsertInternal_splits [OF assms(2)] obtain n a where
    t': "t' = (splits n h t key)\<lparr>heap_m := (heap_m (splits n h t key))
              [a := snd (Bucket_Insert (heap_m (splits n h t key) ! a) key val)]\<rparr>"
    by blast
  have "dir_inv (splits n h t key)"
    using assms(1) by (rule dir_inv_splits)
  then have "dir_inv t'"
    unfolding t' by (rule dir_inv_bucket_update) (simp add: Bucket_Insert_fields)
  then show ?thesis
    by (simp add: dir_inv_ref_counts)
qed

lemma InsertInternal_no_fault:
  assumes "dir_inv t"
  shows "InsertInternal h t key val \<noteq> Some (Inl e)"
proof -
  have "\<forall>e. y = Inl e \<longrightarrow> \<not> dir_inv t" if "InsertInternal h t key val = Some y" for y
    using that
  proof (induction rule: InsertInternal.raw_induct [rotated 1, consumes 1])
    case (1 ins h t key val y)
    show ?case
    proof (intro allI impI notI)
      fix e assume y: "y = Inl e" and inv: "dir_inv t"
      from dir_inv_dir_at [OF inv, of h key] obtain a where
        a: "dir_at t (IndexOf h t key) = Inr a"
        by blast
      show False
      proof (cases "IsFull (heap_m t ! a)")
        case True
        with a 1(2) have "ins h (split_step h t (IndexOf h t key)) key val = Some y"
          by simp
        from 1(1) [OF this] y dir_inv_split_step [OF inv IndexOf_less [OF inv]] show False
          by simp
      next
        case False
        with a 1(2) y show False
          by simp
      qed
    qed
  qed
  with assms show ?thesis
    by auto
qed

end
